theory Spec2Isabelle
  imports Main "HOL-Library.List_Lexorder"
begin

section \<open>Strings of code points\<close>

text \<open>
  A Python \<open>str\<close> is a sequence of Unicode code points and \<open>len\<close> counts code points.
  The tree-diagram parser measures indentation as \<open>len(prefix)\<close>, where the prefix may
  hold box-drawing glyphs, so a string is modelled as a list of code points (natural numbers),
  not as a list of bytes. \<open>ustr\<close> turns an ASCII literal into such a string.
\<close>

type_synonym uchar = nat
type_synonym ustring = "nat list"

definition ustr :: "string \<Rightarrow> ustring" where
  "ustr s = map of_char s"

text \<open>
  Two tables of Python's Unicode database are not written out: which code points beyond
  ASCII are alphanumeric (the regex class \<open>\w\<close>), and \<open>str.lower\<close> on a string that has a
  code point beyond ASCII. They are parameters; every theorem below holds for all of them.
  On ASCII both are defined here.
\<close>

record unicode =
  word_char :: "uchar \<Rightarrow> bool"
  lower_str :: "ustring \<Rightarrow> ustring"

definition is_word :: "unicode \<Rightarrow> uchar \<Rightarrow> bool" where
  "is_word uni c =
     (if c < 128
      then (48 \<le> c \<and> c \<le> 57) \<or> (65 \<le> c \<and> c \<le> 90) \<or> c = 95 \<or> (97 \<le> c \<and> c \<le> 122)
      else word_char uni c)"

definition ascii_lower :: "uchar \<Rightarrow> uchar" where
  "ascii_lower c = (if 65 \<le> c \<and> c \<le> 90 then c + 32 else c)"

definition py_lower :: "unicode \<Rightarrow> ustring \<Rightarrow> ustring" where
  "py_lower uni s = (if list_all (\<lambda>c. c < 128) s then map ascii_lower s else lower_str uni s)"

text \<open>\<open>str.isspace\<close> of one code point; the regex class \<open>\s\<close> is the same set.\<close>

definition is_space :: "uchar \<Rightarrow> bool" where
  "is_space c \<longleftrightarrow>
     (9 \<le> c \<and> c \<le> 13) \<or> (28 \<le> c \<and> c \<le> 32) \<or> c = 133 \<or> c = 160 \<or> c = 5760 \<or>
     (8192 \<le> c \<and> c \<le> 8202) \<or> c = 8232 \<or> c = 8233 \<or> c = 8239 \<or> c = 8287 \<or> c = 12288"

text \<open>The line boundaries of \<open>str.splitlines\<close>.\<close>

definition is_linebreak :: "uchar \<Rightarrow> bool" where
  "is_linebreak c \<longleftrightarrow>
     (10 \<le> c \<and> c \<le> 13) \<or> (28 \<le> c \<and> c \<le> 30) \<or> c = 133 \<or> c = 8232 \<or> c = 8233"

definition py_strip :: "ustring \<Rightarrow> ustring" where
  "py_strip s = rev (dropWhile is_space (rev (dropWhile is_space s)))"

definition slash :: uchar where
  "slash = 47"

definition rstrip_slash :: "ustring \<Rightarrow> ustring" where
  "rstrip_slash s = rev (dropWhile (\<lambda>c. c = slash) (rev s))"

definition endswith_slash :: "ustring \<Rightarrow> bool" where
  "endswith_slash s \<longleftrightarrow> s \<noteq> [] \<and> last s = slash"

definition startswith_slash :: "ustring \<Rightarrow> bool" where
  "startswith_slash s \<longleftrightarrow> s \<noteq> [] \<and> hd s = slash"

text \<open>
  \<open>str.splitlines()\<close>: the text is cut at every line boundary, \<open>\r\n\<close> counts as one
  boundary, and a boundary at the very end opens no further line.
\<close>

function splitlines :: "ustring \<Rightarrow> ustring list" where
  "splitlines s =
     (if s = [] then []
      else takeWhile (\<lambda>c. \<not> is_linebreak c) s #
        (case dropWhile (\<lambda>c. \<not> is_linebreak c) s of
           [] \<Rightarrow> []
         | c # r \<Rightarrow>
             (case r of
                [] \<Rightarrow> []
              | d # r' \<Rightarrow> if c = 13 \<and> d = 10 then splitlines r' else splitlines (d # r'))))"
  by pat_completeness auto
termination
proof (relation "measure length", goal_cases)
  case 1
  show ?case by simp
next
  case (2 s c r d r')
  have "length (dropWhile (\<lambda>c. \<not> is_linebreak c) s) \<le> length s"
    by (rule length_dropWhile_le)
  with 2 show ?case by simp
next
  case (3 s c r d r')
  have "length (dropWhile (\<lambda>c. \<not> is_linebreak c) s) \<le> length s"
    by (rule length_dropWhile_le)
  with 3 show ?case by simp
qed

declare splitlines.simps [simp del]

section \<open>The two regular expressions of the parser\<close>

text \<open>
  \<open>re.search(r"```(?:\w*\n)?(.*?)```", content, re.DOTALL | re.IGNORECASE)\<close>.
  A match starts at the first \<open>```\<close> of the text: the optional group takes a run of word
  characters followed by a newline when there is one (it holds no backquote, so taking it
  never loses a closing fence), and the lazy group ends at the first \<open>```\<close> after that.
  When the first fence has no later fence, no other start position has one either.
  \<open>until_fence\<close> gives the text before the first fence and the text after it.
\<close>

definition backquote :: uchar where
  "backquote = 96"

fun until_fence :: "ustring \<Rightarrow> (ustring \<times> ustring) option" where
  "until_fence [] = None"
| "until_fence (c # cs) =
     (if take 3 (c # cs) = [backquote, backquote, backquote] then Some ([], drop 2 cs)
      else (case until_fence cs of None \<Rightarrow> None | Some (a, b) \<Rightarrow> Some (c # a, b)))"

definition skip_lang :: "unicode \<Rightarrow> ustring \<Rightarrow> ustring" where
  "skip_lang uni s =
     (case dropWhile (is_word uni) s of
        [] \<Rightarrow> s
      | c # r \<Rightarrow> if c = 10 then r else s)"

definition code_block_match :: "unicode \<Rightarrow> ustring \<Rightarrow> ustring option" where
  "code_block_match uni content =
     (case until_fence content of
        None \<Rightarrow> None
      | Some (before, rest) \<Rightarrow>
          (case until_fence (skip_lang uni rest) of
             None \<Rightarrow> None
           | Some (body, after) \<Rightarrow> Some body))"

text \<open>
  \<open>re.match(r"^([\<dots>\s\<dots>]*)(.*?)(?:\s*#.*)?$", line)\<close> on one line of
  \<open>splitlines\<close>, which holds no newline: the first group is the longest run of decoration
  (the glyphs U+2502, U+251C, U+2514, U+2500 and white space); the lazy second group stops at
  the first position from which the rest of the line is white space followed by \<open>#\<close>, or at
  the end of the line. On such a line the expression always matches, so the source's
  \<open>if not match: continue\<close> is never taken.
\<close>

definition is_decoration :: "uchar \<Rightarrow> bool" where
  "is_decoration c \<longleftrightarrow> c = 9474 \<or> c = 9500 \<or> c = 9492 \<or> is_space c \<or> c = 9472"

definition hash :: uchar where
  "hash = 35"

definition comment_here :: "ustring \<Rightarrow> bool" where
  "comment_here s = (case dropWhile is_space s of [] \<Rightarrow> False | c # r \<Rightarrow> c = hash)"

fun node_raw :: "ustring \<Rightarrow> ustring" where
  "node_raw [] = []"
| "node_raw (c # cs) = (if comment_here (c # cs) then [] else c # node_raw cs)"

definition line_match :: "ustring \<Rightarrow> ustring \<times> ustring" where
  "line_match line = (takeWhile is_decoration line, node_raw (dropWhile is_decoration line))"

text \<open>
  \<open>re.match(r'.*\.pyc$', path)\<close> and \<open>re.match(r'.*\.log$', path)\<close>: the dot matches
  everything but a newline, and \<open>$\<close> matches at the end or before a final newline.
\<close>

definition match_dotstar_lit :: "ustring \<Rightarrow> ustring \<Rightarrow> bool" where
  "match_dotstar_lit lit s =
     (let x = (if s \<noteq> [] \<and> last s = 10 then butlast s else s)
      in length lit \<le> length x \<and> drop (length x - length lit) x = lit \<and>
         10 \<notin> set (take (length x - length lit) x))"

section \<open>\<open>pathlib\<close> on POSIX\<close>

text \<open>
  \<open>PurePosixPath(p)\<close>: the components between slashes, without the empty ones and
  without \<open>.\<close>; a leading slash is the root (two leading slashes, exactly, are the root
  \<open>//\<close>). \<open>name\<close> is the last component (the empty string when there is none) and
  \<open>suffix\<close> is the name from its last dot, unless that dot is the first or the last
  character of the name.
\<close>

fun split_slash :: "ustring \<Rightarrow> ustring list" where
  "split_slash [] = [[]]"
| "split_slash (c # cs) =
     (if c = slash then [] # split_slash cs
      else (case split_slash cs of [] \<Rightarrow> [[c]] | x # xs \<Rightarrow> (c # x) # xs))"

definition path_root :: "ustring \<Rightarrow> ustring" where
  "path_root p =
     (if \<not> startswith_slash p then []
      else if length (takeWhile (\<lambda>c. c = slash) p) = 2 then [slash, slash] else [slash])"

definition path_tail :: "ustring \<Rightarrow> ustring list" where
  "path_tail p = filter (\<lambda>c. c \<noteq> [] \<and> c \<noteq> ustr ''.'') (split_slash p)"

definition path_parts :: "ustring \<Rightarrow> ustring list" where
  "path_parts p = (if path_root p = [] then path_tail p else path_root p # path_tail p)"

definition path_name :: "ustring \<Rightarrow> ustring" where
  "path_name p = (case path_tail p of [] \<Rightarrow> [] | c # cs \<Rightarrow> last (c # cs))"

definition dot :: uchar where
  "dot = 46"

definition name_suffix :: "ustring \<Rightarrow> ustring" where
  "name_suffix name =
     (if dot \<notin> set name then []
      else (let ext = rev (takeWhile (\<lambda>c. c \<noteq> dot) (rev name));
                i = length name - length ext - 1
            in if 0 < i \<and> i < length name - 1 then drop i name else []))"

definition path_suffix :: "ustring \<Rightarrow> ustring" where
  "path_suffix p = name_suffix (path_name p)"

text \<open>
  \<open>as_posix()\<close> (and \<open>str\<close>) of a relative path given by its components; the path with
  no component prints as \<open>.\<close>.
\<close>

fun as_posix :: "ustring list \<Rightarrow> ustring" where
  "as_posix [] = ustr ''.''"
| "as_posix [c] = c"
| "as_posix (c # cs) = c @ [slash] @ as_posix cs"

section \<open>Configuration\<close>

text \<open>
  The ignore rules are module constants of the source. The functions below take them as a
  value, so that the theorems hold for every configuration; \<open>default_config\<close> is the one
  of the source. A pattern is represented by its matcher: the function that tells whether
  \<open>re.match(pattern, path)\<close> finds a match.
\<close>

record config =
  ignore_dirs :: "ustring set"
  ignore_files :: "ustring set"
  ignore_extensions :: "ustring set"
  ignore_patterns :: "(ustring \<Rightarrow> bool) list"

definition IGNORE_DIRS :: "ustring set" where
  "IGNORE_DIRS =
     {ustr ''.git'', ustr ''node_modules'', ustr ''.vscode'', ustr ''.idea'', ustr ''__pycache__''}"

definition IGNORE_FILES :: "ustring set" where
  "IGNORE_FILES =
     {ustr ''manage_structure.py'', ustr ''structure.md'', ustr ''bun.lockb'',
      ustr ''package-lock.json'', ustr ''.DS_Store''}"

definition IGNORE_EXTENSIONS :: "ustring set" where
  "IGNORE_EXTENSIONS = {ustr ''.png'', ustr ''.sql'', ustr ''.svg'', ustr ''.ico'', ustr ''.lockb''}"

definition IGNORE_PATTERNS :: "(ustring \<Rightarrow> bool) list" where
  "IGNORE_PATTERNS = [match_dotstar_lit (ustr ''.pyc''), match_dotstar_lit (ustr ''.log'')]"

definition default_config :: config where
  "default_config =
     \<lparr>ignore_dirs = IGNORE_DIRS, ignore_files = IGNORE_FILES,
      ignore_extensions = IGNORE_EXTENSIONS, ignore_patterns = IGNORE_PATTERNS\<rparr>"

section \<open>The filesystem scanner\<close>

text \<open>
  What \<open>os.walk(root, topdown=True)\<close> sees of a directory: its entries in listing order.
  \<open>File\<close> is any entry that is not a directory, \<open>Dir\<close> a directory with its own
  entries, and \<open>Unwalked\<close> an entry that \<open>os.walk\<close> lists among \<open>dirnames\<close> but never
  yields as \<open>dirpath\<close>: a symbolic link to a directory (\<open>followlinks\<close> is off) or a
  directory whose listing fails (the error is swallowed).
\<close>

datatype fs_entry = File ustring | Dir ustring "fs_entry list" | Unwalked ustring

fun filenames :: "fs_entry list \<Rightarrow> ustring list" where
  "filenames [] = []"
| "filenames (File n # es) = n # filenames es"
| "filenames (Dir n sub # es) = filenames es"
| "filenames (Unwalked n # es) = filenames es"

text \<open>The three \<open>continue\<close> tests of the inner loop: a file passes when none fires.\<close>

definition file_kept :: "unicode \<Rightarrow> config \<Rightarrow> ustring list \<Rightarrow> ustring \<Rightarrow> bool" where
  "file_kept uni cfg relative_dir filename \<longleftrightarrow>
     filename \<notin> ignore_files cfg \<and>
     py_lower uni (name_suffix filename) \<notin> ignore_extensions cfg \<and>
     \<not> list_ex (\<lambda>pattern. pattern (as_posix (relative_dir @ [filename]))) (ignore_patterns cfg)"

text \<open>The body of the \<open>for dirpath, dirnames, filenames\<close> loop, for one directory.\<close>

definition visit_dir :: "unicode \<Rightarrow> config \<Rightarrow> ustring list \<Rightarrow> fs_entry list \<Rightarrow> ustring list" where
  "visit_dir uni cfg relative_dir entries =
     (if as_posix relative_dir \<noteq> ustr ''.'' then [as_posix relative_dir @ [slash]] else []) @
     map (\<lambda>filename. if as_posix relative_dir = ustr ''.'' then filename
                      else as_posix (relative_dir @ [filename]))
       (filter (file_kept uni cfg relative_dir) (filenames entries))"

text \<open>
  The walk, top down: the directory itself, then each sub-directory whose name survived the
  pruning \<open>dirnames[:] = [d for d in dirnames if d not in IGNORE_DIRS]\<close>. The result lists
  the paths in the order in which the source adds them to \<open>actual_paths\<close>.
\<close>

fun walk :: "unicode \<Rightarrow> config \<Rightarrow> ustring list \<Rightarrow> fs_entry list \<Rightarrow> ustring list" where
  "walk uni cfg relative_dir entries =
     visit_dir uni cfg relative_dir entries @
     concat (map (\<lambda>e. case e of
                        Dir d sub \<Rightarrow>
                          if d \<in> ignore_dirs cfg then [] else walk uni cfg (relative_dir @ [d]) sub
                      | File n \<Rightarrow> []
                      | Unwalked n \<Rightarrow> [])
               entries)"

declare walk.simps [simp del]

definition scan_project_files_for_verify :: "unicode \<Rightarrow> config \<Rightarrow> fs_entry list \<Rightarrow> ustring set" where
  "scan_project_files_for_verify uni cfg root_dir = set (walk uni cfg [] root_dir)"

section \<open>The tree-diagram parser\<close>

text \<open>
  The state of the loop over the lines: the set \<open>documented_paths_full\<close> and the stack
  \<open>path_stack\<close> of (path, indentation) pairs. The top of the stack, \<open>path_stack[-1]\<close> in
  the source, is the head of the list here.
\<close>

record parse_state =
  documented_paths_full :: "ustring set"
  path_stack :: "(ustring \<times> nat) list"

definition star :: uchar where
  "star = 42"

text \<open>\<open>while path_stack and indent <= path_stack[-1][1]: path_stack.pop()\<close>\<close>

fun pop_stack :: "nat \<Rightarrow> (ustring \<times> nat) list \<Rightarrow> (ustring \<times> nat) list" where
  "pop_stack indent [] = []"
| "pop_stack indent ((p, i) # stack) =
     (if indent \<le> i then pop_stack indent stack else (p, i) # stack)"

text \<open>
  The head of the loop body, up to \<open>if not node_part: continue\<close>: a blank line, the lone
  root marker \<open>.\<close> and a line without a node token are skipped (\<open>None\<close>); every other
  line gives its decoration prefix and its node token.
\<close>

definition node_part_of :: "ustring \<Rightarrow> ustring" where
  "node_part_of line = py_strip (snd (line_match line))"

definition line_entry :: "ustring \<Rightarrow> (ustring \<times> ustring) option" where
  "line_entry line =
     (let line_strip = py_strip line in
      if line_strip = [] \<or> line_strip = ustr ''.'' then None
      else
        let prefix = fst (line_match line);
            node_part = node_part_of line in
        if node_part = [] then None else Some (prefix, node_part))"

text \<open>
  The rest of the loop body. Every \<open>continue\<close> before the \<open>while\<close> leaves the state as
  it is; every \<open>continue\<close> after it leaves the stack popped and adds nothing.
\<close>

definition process_entry ::
  "unicode \<Rightarrow> config \<Rightarrow> parse_state \<Rightarrow> ustring \<Rightarrow> ustring \<Rightarrow> parse_state" where
  "process_entry uni cfg st prefix node_part =
     (let potential_node_name = rstrip_slash node_part in
      if star \<in> set node_part then st
      else if (potential_node_name \<in> ignore_dirs cfg \<or> potential_node_name \<in> ignore_files cfg)
              \<and> path_stack st = [] then st
      else if endswith_slash node_part \<and> potential_node_name \<in> ignore_dirs cfg then st
      else
        let indent = length prefix;
            stack = pop_stack indent (path_stack st);
            popped = st\<lparr>path_stack := stack\<rparr>;
            parent_path = (case stack of [] \<Rightarrow> [] | (p, i) # rest \<Rightarrow> p) in
        if \<not> (parent_path \<noteq> [] \<and> \<not> startswith_slash node_part) \<and>
           (rstrip_slash node_part \<in> ignore_dirs cfg \<or> rstrip_slash node_part \<in> ignore_files cfg)
        then popped
        else
          let current_path =
                (if parent_path \<noteq> [] \<and> \<not> startswith_slash node_part
                 then parent_path @ [slash] @ node_part else node_part);
              is_dir = endswith_slash node_part;
              clean_path = rstrip_slash current_path in
          if path_name clean_path \<in> ignore_dirs cfg then popped
          else if \<not> is_dir \<and> py_lower uni (path_suffix clean_path) \<in> ignore_extensions cfg
          then popped
          else if path_name clean_path \<in> ignore_files cfg then popped
          else
            let final_path = (if is_dir then clean_path @ [slash] else clean_path) in
            \<lparr>documented_paths_full =
               (if \<not> list_ex (\<lambda>part. part \<in> ignore_dirs cfg) (path_parts final_path)
                then insert final_path (documented_paths_full st)
                else documented_paths_full st),
             path_stack =
               (if is_dir \<and> path_name clean_path \<notin> ignore_dirs cfg
                then (clean_path, indent) # stack else stack)\<rparr>)"

definition process_line :: "unicode \<Rightarrow> config \<Rightarrow> parse_state \<Rightarrow> ustring \<Rightarrow> parse_state" where
  "process_line uni cfg st line =
     (case line_entry line of
        None \<Rightarrow> st
      | Some (prefix, node_part) \<Rightarrow> process_entry uni cfg st prefix node_part)"

definition initial_state :: parse_state where
  "initial_state = \<lparr>documented_paths_full = {}, path_stack = []\<rparr>"

definition parse_lines :: "unicode \<Rightarrow> config \<Rightarrow> ustring list \<Rightarrow> parse_state" where
  "parse_lines uni cfg lines = foldl (process_line uni cfg) initial_state lines"

text \<open>The set comprehension after the loop.\<close>

definition final_keep :: "unicode \<Rightarrow> config \<Rightarrow> ustring \<Rightarrow> bool" where
  "final_keep uni cfg p \<longleftrightarrow>
     path_name p \<notin> ignore_files cfg \<and>
     (\<not> endswith_slash p \<or> path_name p \<notin> ignore_dirs cfg) \<and>
     \<not> list_ex (\<lambda>part. part \<in> ignore_dirs cfg) (path_parts p) \<and>
     (endswith_slash p \<or> py_lower uni (path_suffix p) \<notin> ignore_extensions cfg)"

definition final_documented_paths :: "unicode \<Rightarrow> config \<Rightarrow> ustring set \<Rightarrow> ustring set" where
  "final_documented_paths uni cfg documented = {p \<in> documented. final_keep uni cfg p}"

text \<open>
  What reading the documentation file gives: the file is missing (\<open>FileNotFoundError\<close>),
  \<open>open\<close> or \<open>read\<close> raises something else (\<open>PermissionError\<close>, \<open>IsADirectoryError\<close>,
  \<open>UnicodeDecodeError\<close>), or the text that \<open>read\<close> returns (decoded, and with the line
  ends translated as text mode does).
\<close>

datatype py_error = PermissionError | IsADirectoryError | UnicodeDecodeError

datatype file_read = FileNotFound | ReadRaises py_error | Content ustring

text \<open>
  What the program prints, one value for each \<open>print\<close> or group of them: \<open>Banner\<close> is
  the five lines printed before the scan, \<open>FoundActual\<close> and \<open>FoundDocumented\<close> carry the
  two counts, \<open>MissingInDocs\<close> and \<open>MissingInProject\<close> a heading with the sorted items.
\<close>

datatype message =
    Banner
  | FoundActual nat
  | ParsingDocumentation
  | ErrorNotFound
  | ErrorNoCodeBlock
  | FoundDocumented nat
  | Separator
  | Success
  | MissingInDocs "ustring list"
  | MissingInProject "ustring list"
  | CouldNotVerify

text \<open>
  \<open>extract_documented_paths\<close>: \<open>Inl\<close> is an exception that leaves the function, \<open>Inr\<close>
  the printed lines together with the returned value, \<open>None\<close> or the set.
\<close>

definition extract_documented_paths ::
  "unicode \<Rightarrow> config \<Rightarrow> file_read \<Rightarrow> py_error + (message list \<times> ustring set option)" where
  "extract_documented_paths uni cfg md_file =
     (case md_file of
        FileNotFound \<Rightarrow> Inr ([ErrorNotFound], None)
      | ReadRaises e \<Rightarrow> Inl e
      | Content content \<Rightarrow>
          (case code_block_match uni content of
             None \<Rightarrow> Inr ([ErrorNoCodeBlock], None)
           | Some group1 \<Rightarrow>
               Inr ([], Some (final_documented_paths uni cfg
                        (documented_paths_full
                           (parse_lines uni cfg (splitlines (py_strip group1))))))))"

text \<open>The \<open>verify\<close> branch of the main program.\<close>

definition verify_mode ::
  "unicode \<Rightarrow> config \<Rightarrow> fs_entry list \<Rightarrow> file_read \<Rightarrow> py_error + message list" where
  "verify_mode uni cfg root md_file =
     (let actual_files = scan_project_files_for_verify uni cfg root;
          out = [Banner, FoundActual (card actual_files), ParsingDocumentation]
      in case extract_documented_paths uni cfg md_file of
           Inl e \<Rightarrow> Inl e
         | Inr (printed, None) \<Rightarrow> Inr (out @ printed @ [CouldNotVerify])
         | Inr (printed, Some documented_files) \<Rightarrow>
             (let missing_in_docs = actual_files - documented_files;
                  missing_in_project = documented_files - actual_files
              in Inr (out @ printed @ [FoundDocumented (card documented_files), Separator] @
                   (if missing_in_docs = {} \<and> missing_in_project = {} then [Success]
                    else (if missing_in_docs \<noteq> {}
                          then [MissingInDocs (sorted_list_of_set missing_in_docs)] else []) @
                         (if missing_in_project \<noteq> {}
                          then [MissingInProject (sorted_list_of_set missing_in_project)]
                          else [])))))"

section \<open>Sample values\<close>

text \<open>
  Closed instances of the theorems need a value for the Unicode tables. The inputs used
  there are ASCII, so the tables are never consulted.
\<close>

definition ascii_tables :: unicode where
  "ascii_tables = \<lparr>word_char = (\<lambda>c. False), lower_str = (\<lambda>s. s)\<rparr>"

definition fence :: ustring where
  "fence = [backquote, backquote, backquote]"

text \<open>The four diagram lines \<open>src/\<close>, \<open>  utils.ts\<close>, \<open>  components/\<close>, \<open>    Button.tsx\<close>.\<close>

definition example_block :: ustring where
  "example_block =
     ustr ''src/'' @ 10 # ustr ''  utils.ts'' @ 10 # ustr ''  components/'' @ 10 #
     ustr ''    Button.tsx''"

section \<open>Notions used to state the properties\<close>

text \<open>
  The path of a new entry, given the stack left by the unwinding: the node token joined to
  the path on top of the stack when that path is not empty and the token does not begin
  with a slash, the node token alone otherwise.
\<close>

definition entry_path :: "(ustring \<times> nat) list \<Rightarrow> ustring \<Rightarrow> ustring" where
  "entry_path stack node_part =
     (case stack of
        [] \<Rightarrow> node_part
      | (parent, i) # rest \<Rightarrow>
          if parent \<noteq> [] \<and> \<not> startswith_slash node_part then parent @ [slash] @ node_part
          else node_part)"

text \<open>
  The same path in the words of the specification: \<open>parent/node\<close> whenever the stack is
  not empty, \<open>node\<close> otherwise.
\<close>

definition entry_path_claimed :: "(ustring \<times> nat) list \<Rightarrow> ustring \<Rightarrow> ustring" where
  "entry_path_claimed stack node_part =
     (case stack of
        [] \<Rightarrow> node_part
      | (parent, i) # rest \<Rightarrow> parent @ [slash] @ node_part)"

text \<open>The form in which a path enters the result set: one trailing slash for a directory.\<close>

definition final_form :: "ustring \<Rightarrow> bool \<Rightarrow> ustring" where
  "final_form path is_dir = (if is_dir then rstrip_slash path @ [slash] else rstrip_slash path)"

text \<open>
  The tests that keep a directory token off the stack, given the stack left by the
  unwinding: a wildcard in the token; the token without its trailing slashes is an ignored
  directory name, or, when the token is not joined to a parent, an ignored file name; the
  last component of the reconstructed path is an ignored directory or file name.
\<close>

definition dir_withheld :: "config \<Rightarrow> (ustring \<times> nat) list \<Rightarrow> ustring \<Rightarrow> bool" where
  "dir_withheld cfg stack node_part \<longleftrightarrow>
     star \<in> set node_part \<or>
     rstrip_slash node_part \<in> ignore_dirs cfg \<or>
     (entry_path stack node_part = node_part \<and> rstrip_slash node_part \<in> ignore_files cfg) \<or>
     path_name (rstrip_slash (entry_path stack node_part)) \<in> ignore_dirs cfg \<union> ignore_files cfg"

text \<open>The state of the parser after the line \<open>src/\<close>.\<close>

definition src_state :: parse_state where
  "src_state = \<lparr>documented_paths_full = {ustr ''src/''}, path_stack = [(ustr ''src'', 0)]\<rparr>"

text \<open>
  The three \<open>continue\<close> tests between the node token and the unwinding of the stack: the
  token holds a wildcard; the token without its trailing slashes is an ignored directory or
  file name and the stack is empty; the token ends with a slash and, without its trailing
  slashes, is an ignored directory name.
\<close>

definition skipped_early :: "config \<Rightarrow> parse_state \<Rightarrow> ustring \<Rightarrow> bool" where
  "skipped_early cfg st node_part \<longleftrightarrow>
     star \<in> set node_part \<or>
     ((rstrip_slash node_part \<in> ignore_dirs cfg \<or> rstrip_slash node_part \<in> ignore_files cfg) \<and>
      path_stack st = []) \<or>
     (endswith_slash node_part \<and> rstrip_slash node_part \<in> ignore_dirs cfg)"

text \<open>
  The \<open>continue\<close> tests after the unwinding, given the stack \<open>rest\<close> that it leaves: the
  token is not joined to a parent and is, without its trailing slashes, an ignored directory
  or file name; the last component of the path is an ignored directory or file name; the
  entry is a file whose extension is ignored.
\<close>

definition dropped_late :: "unicode \<Rightarrow> config \<Rightarrow> (ustring \<times> nat) list \<Rightarrow> ustring \<Rightarrow> bool" where
  "dropped_late uni cfg rest node_part \<longleftrightarrow>
     (entry_path rest node_part = node_part \<and>
      (rstrip_slash node_part \<in> ignore_dirs cfg \<or> rstrip_slash node_part \<in> ignore_files cfg)) \<or>
     path_name (rstrip_slash (entry_path rest node_part)) \<in> ignore_dirs cfg \<union> ignore_files cfg \<or>
     (\<not> endswith_slash node_part \<and>
      py_lower uni (path_suffix (rstrip_slash (entry_path rest node_part))) \<in> ignore_extensions cfg)"

text \<open>
  What a line does that reaches the unwinding, given the stack \<open>rest\<close> that the unwinding
  leaves: when one of the later tests fires it leaves \<open>rest\<close> and adds nothing; otherwise
  it adds the path of the entry, unless one of its components is an ignored directory name,
  and pushes the path with the indentation of the line when the entry is a directory.
\<close>

definition entry_result ::
  "unicode \<Rightarrow> config \<Rightarrow> parse_state \<Rightarrow> (ustring \<times> nat) list \<Rightarrow> nat \<Rightarrow> ustring \<Rightarrow> parse_state" where
  "entry_result uni cfg st rest indent node_part =
     (if dropped_late uni cfg rest node_part then st\<lparr>path_stack := rest\<rparr>
      else
        \<lparr>documented_paths_full =
           (if list_ex (\<lambda>part. part \<in> ignore_dirs cfg)
                 (path_parts (final_form (entry_path rest node_part) (endswith_slash node_part)))
            then documented_paths_full st
            else insert (final_form (entry_path rest node_part) (endswith_slash node_part))
                   (documented_paths_full st)),
         path_stack =
           (if endswith_slash node_part
            then (rstrip_slash (entry_path rest node_part), indent) # rest else rest)\<rparr>)"

text \<open>A stack whose indentations grow strictly from the bottom to the top.\<close>

definition nested :: "(ustring \<times> nat) list \<Rightarrow> bool" where
  "nested stack \<longleftrightarrow> sorted_wrt (\<lambda>upper lower. snd lower < snd upper) stack"

text \<open>A line without a node token, or with an indentation greater than \<open>i\<close>.\<close>

definition deeper_line :: "nat \<Rightarrow> ustring \<Rightarrow> bool" where
  "deeper_line i line \<longleftrightarrow>
     (case line_entry line of None \<Rightarrow> True | Some (prefix, node_part) \<Rightarrow> i < length prefix)"

text \<open>The state of the parser after the lines \<open>src/\<close> and \<open>  components/\<close>.\<close>

definition components_state :: parse_state where
  "components_state =
     \<lparr>documented_paths_full = {ustr ''src/components/'', ustr ''src/''},
      path_stack = [(ustr ''src/components'', 2), (ustr ''src'', 0)]\<rparr>"

text \<open>
  A documentation text whose diagram is indented as a whole: a fenced block with the lines
  \<open>  components/\<close>, \<open>    Button.tsx\<close> and \<open>  utils.ts\<close>.
\<close>

definition indented_doc :: ustring where
  "indented_doc =
     fence @ 10 # ustr ''  components/'' @ 10 # ustr ''    Button.tsx'' @ 10 #
     ustr ''  utils.ts'' @ 10 # fence"

text \<open>
  A name that a directory listing can hold: not empty, without a slash, and neither \<open>.\<close>
  nor \<open>..\<close>.
\<close>

definition valid_name :: "ustring \<Rightarrow> bool" where
  "valid_name n \<longleftrightarrow> n \<noteq> [] \<and> slash \<notin> set n \<and> n \<noteq> ustr ''.'' \<and> n \<noteq> ustr ''..''"

text \<open>A directory tree all of whose names are such names.\<close>

fun wf_entry :: "fs_entry \<Rightarrow> bool" where
  "wf_entry (File n) = valid_name n"
| "wf_entry (Dir n sub) = (valid_name n \<and> list_all wf_entry sub)"
| "wf_entry (Unwalked n) = valid_name n"

text \<open>
  \<open>dir_at e comps\<close>: in the tree \<open>e\<close> the components \<open>comps\<close> lead to a directory that
  the walk descends into; \<open>file_at e comps\<close>: they lead to a file.
\<close>

fun dir_at :: "fs_entry \<Rightarrow> ustring list \<Rightarrow> bool" where
  "dir_at (Dir n sub) [c] = (n = c)"
| "dir_at (Dir n sub) (c # d # cs) = (n = c \<and> list_ex (\<lambda>e. dir_at e (d # cs)) sub)"
| "dir_at e cs = False"

fun file_at :: "fs_entry \<Rightarrow> ustring list \<Rightarrow> bool" where
  "file_at (File n) [c] = (n = c)"
| "file_at (Dir n sub) (c # d # cs) = (n = c \<and> list_ex (\<lambda>e. file_at e (d # cs)) sub)"
| "file_at e cs = False"

text \<open>
  What puts a file, and what puts a directory, into the result of the scanner that walks
  \<open>entries\<close> as the directory \<open>rel\<close>: the components below \<open>rel\<close>.
\<close>

definition scanned_file ::
  "unicode \<Rightarrow> config \<Rightarrow> ustring list \<Rightarrow> fs_entry list \<Rightarrow> ustring list \<Rightarrow> bool" where
  "scanned_file uni cfg rel entries comps \<longleftrightarrow>
     comps \<noteq> [] \<and> list_all valid_name comps \<and>
     (\<forall>d\<in>set (butlast comps). d \<notin> ignore_dirs cfg) \<and>
     list_ex (\<lambda>e. file_at e comps) entries \<and>
     file_kept uni cfg (rel @ butlast comps) (last comps)"

definition scanned_dir :: "config \<Rightarrow> fs_entry list \<Rightarrow> ustring list \<Rightarrow> bool" where
  "scanned_dir cfg entries comps \<longleftrightarrow>
     comps \<noteq> [] \<and> list_all valid_name comps \<and> (\<forall>d\<in>set comps. d \<notin> ignore_dirs cfg) \<and>
     list_ex (\<lambda>e. dir_at e comps) entries"

text \<open>
  The components of a result entry that name directories: all of them for a directory
  entry (trailing slash), all but the last for a file entry.
\<close>

definition dir_parts :: "ustring \<Rightarrow> ustring list" where
  "dir_parts p = (if endswith_slash p then path_parts p else butlast (path_parts p))"

text \<open>
  The rules of the scanner for the file with components \<open>comps\<close>: no directory above it
  is pruned, and none of the three tests on the file fires.
\<close>

definition scanner_keeps :: "unicode \<Rightarrow> config \<Rightarrow> ustring list \<Rightarrow> bool" where
  "scanner_keeps uni cfg comps \<longleftrightarrow>
     (\<forall>d\<in>set (butlast comps). d \<notin> ignore_dirs cfg) \<and>
     file_kept uni cfg (butlast comps) (last comps)"

text \<open>A small project directory.\<close>

definition sample_root :: "fs_entry list" where
  "sample_root =
     [File (ustr ''README.md''), File (ustr ''debug.log''),
      Dir (ustr ''src'') [File (ustr ''main.ts''), File (ustr ''logo.PNG'')],
      Dir (ustr ''node_modules'') [File (ustr ''x.js'')],
      Unwalked (ustr ''link'')]"

text \<open>A project directory whose only entry is a directory.\<close>

definition library_root :: "fs_entry list" where
  "library_root =
     [Dir (ustr ''src'') [File (ustr ''a.ts''), Dir (ustr ''lib'') [File (ustr ''b.ts'')]]]"

text \<open>
  A documentation text: a fenced block with the lines \<open>src/\<close>, \<open>  main.ts\<close> and
  \<open>debug.log\<close>.
\<close>

definition nested_doc :: ustring where
  "nested_doc = fence @ 10 # ustr ''src/'' @ 10 # ustr ''  main.ts'' @ 10 # ustr ''debug.log'' @ 10 # fence"

text \<open>
  A name that a diagram line carries unchanged: a valid name that does not begin with
  decoration (white space or a box-drawing glyph), does not end with white space, holds no
  \<open>#\<close>, \<open>*\<close> or line boundary, and holds no run of three backquotes.
\<close>

definition plain_name :: "ustring \<Rightarrow> bool" where
  "plain_name n \<longleftrightarrow>
     valid_name n \<and> \<not> is_decoration (hd n) \<and> \<not> is_space (last n) \<and>
     list_all (\<lambda>c. c \<noteq> hash \<and> c \<noteq> star \<and> \<not> is_linebreak c) n \<and> until_fence n = None"

text \<open>
  What the round trip asks of one entry of a result set: its name is plain, a file is not
  named like an ignored directory, and a directory is not named like an ignored file.
\<close>

definition diagram_entry :: "config \<Rightarrow> ustring \<Rightarrow> bool" where
  "diagram_entry cfg p \<longleftrightarrow>
     plain_name (path_name p) \<and>
     (if endswith_slash p then path_name p \<notin> ignore_files cfg
      else path_name p \<notin> ignore_dirs cfg)"

text \<open>
  What the round trip asks of the first entry of the diagram, whose line loses its
  indentation when the parser strips the block: it is a file, or no later entry has just
  one component.
\<close>

definition first_line_fits :: "ustring list \<Rightarrow> bool" where
  "first_line_fits paths =
     (case paths of
        [] \<Rightarrow> True
      | first # others \<Rightarrow>
          \<not> endswith_slash first \<or> list_all (\<lambda>p. length (path_parts p) \<noteq> 1) others)"

text \<open>The result sets for which the round trip is stated.\<close>

definition diagram_ok :: "config \<Rightarrow> ustring set \<Rightarrow> bool" where
  "diagram_ok cfg paths \<longleftrightarrow>
     list_all (diagram_entry cfg) (sorted_list_of_set paths) \<and>
     first_line_fits (sorted_list_of_set paths)"

text \<open>
  Modelled from the spec: the serializer of the round-trip property, which the repository
  does not contain; this is the line of one entry. The specification's words are
  ``serializing the Filesystem Scanner's output into a tree format (depth = path-component
  count)'': the entry is indented by two spaces per path component and holds its last
  component, a directory keeping its trailing slash.
\<close>

definition entry_line :: "ustring \<Rightarrow> ustring" where
  "entry_line p =
     replicate (2 * length (path_parts p)) 32 @ path_name p @
     (if endswith_slash p then [slash] else [])"

text \<open>
  Modelled from the spec: the serializer of the round-trip property, which the repository
  does not contain; these are the lines of the diagram, joined by newlines.
\<close>

fun join_lines :: "ustring list \<Rightarrow> ustring" where
  "join_lines [] = []"
| "join_lines [l] = l"
| "join_lines (l # m # ls) = l @ 10 # join_lines (m # ls)"

text \<open>
  Modelled from the spec: the serializer of the round-trip property, which the repository
  does not contain; this is the whole diagram. It takes the result set of the scanner and
  gives a fenced code block that holds one line per entry of the set and nothing else, the
  entries in ascending order (the order of \<open>sorted\<close> on strings, in which a directory
  comes right before what it contains).
\<close>

definition serialize :: "ustring set \<Rightarrow> ustring" where
  "serialize paths =
     fence @ 10 # join_lines (map entry_line (sorted_list_of_set paths)) @ 10 # fence"

text \<open>A diagram line: two spaces per level, the name, a slash for a directory.\<close>

definition rendered :: "nat \<Rightarrow> ustring \<Rightarrow> bool \<Rightarrow> ustring" where
  "rendered d n is_dir = replicate (2 * d) 32 @ n @ (if is_dir then [slash] else [])"

text \<open>
  The stack that holds exactly the directories \<open>rel\<close> leads through, the innermost on
  top, each with the indentation of its line: \<open>z\<close> for the outermost directory (0 when
  its line is the first line of the block, which the parser strips, and 2 otherwise) and
  two spaces per component for the others.
\<close>

fun chain_rev :: "nat \<Rightarrow> ustring list \<Rightarrow> (ustring \<times> nat) list" where
  "chain_rev z [] = []"
| "chain_rev z (n # ups) =
     (as_posix (rev (n # ups)), if ups = [] then z else 2 * length (n # ups)) # chain_rev z ups"

definition chain :: "nat \<Rightarrow> ustring list \<Rightarrow> (ustring \<times> nat) list" where
  "chain z rel = chain_rev z (rev rel)"

text \<open>A directory the scanner has descended into: valid names, none of them ignored.\<close>

definition open_dir :: "config \<Rightarrow> ustring list \<Rightarrow> bool" where
  "open_dir cfg rel \<longleftrightarrow> list_all valid_name rel \<and> (\<forall>c\<in>set rel. c \<notin> ignore_dirs cfg)"

text \<open>
  What the scanner and the conditions of the round trip give for one entry \<open>p\<close> of the
  result set: it is its components joined by slashes, with a slash at the end for a
  directory; the directories it lies in are not ignored; its name is plain; a file passes
  the tests of the scanner and is not named like an ignored directory, a directory is
  neither ignored nor named like an ignored file.
\<close>

definition entry_ok :: "unicode \<Rightarrow> config \<Rightarrow> ustring \<Rightarrow> bool" where
  "entry_ok uni cfg p \<longleftrightarrow>
     path_parts p \<noteq> [] \<and> list_all valid_name (path_parts p) \<and>
     p = as_posix (path_parts p) @ (if endswith_slash p then [slash] else []) \<and>
     (\<forall>d\<in>set (path_parts p). d \<notin> ignore_dirs cfg) \<and>
     plain_name (last (path_parts p)) \<and>
     (if endswith_slash p then last (path_parts p) \<notin> ignore_files cfg
      else file_kept uni cfg (butlast (path_parts p)) (last (path_parts p)))"

text \<open>
  How an entry \<open>p\<close> follows the entry \<open>q\<close> in a diagram: the directory of \<open>p\<close> is among
  the directories that \<open>q\<close> lies in or is, and an entry with one component follows only
  when the first line of the diagram is a file (\<open>z = 2\<close>).
\<close>

definition linked :: "nat \<Rightarrow> ustring \<Rightarrow> ustring \<Rightarrow> bool" where
  "linked z q p \<longleftrightarrow>
     take (length (butlast (path_parts p))) (dir_parts q) = butlast (path_parts p) \<and>
     (length (path_parts p) = 1 \<longrightarrow> z = 2)"

text \<open>What the text-level functions need of a line.\<close>

definition line_fine :: "ustring \<Rightarrow> bool" where
  "line_fine l \<longleftrightarrow>
     l \<noteq> [] \<and> until_fence l = None \<and> (\<forall>c\<in>set l. \<not> is_linebreak c) \<and> \<not> is_space (last l)"

section \<open>Evaluation and basic facts\<close>

lemmas char_defs = ustr_def star_def slash_def hash_def dot_def backquote_def

lemmas line_defs = line_entry_def node_part_of_def line_match_def py_strip_def is_space_def
  is_decoration_def comment_here_def

lemmas path_defs = rstrip_slash_def endswith_slash_def startswith_slash_def path_name_def
  path_tail_def path_parts_def path_root_def path_suffix_def name_suffix_def py_lower_def
  ascii_lower_def

lemmas cfg_defs = default_config_def IGNORE_DIRS_def IGNORE_FILES_def IGNORE_EXTENSIONS_def

lemmas parse_defs = parse_lines_def initial_state_def process_line_def process_entry_def Let_def

text \<open>
  No line of \<open>splitlines\<close> holds a line boundary, a newline in particular: this is what
  lets the model of the line expression always match.
\<close>

lemma splitlines_no_linebreak:
  "l \<in> set (splitlines s) \<Longrightarrow> \<forall>c\<in>set l. \<not> is_linebreak c"
proof (induction s rule: splitlines.induct)
  case (1 s)
  show ?case
  proof (cases "s = []")
    case True
    with "1.prems" show ?thesis
      by (simp add: splitlines.simps)
  next
    case False
    have first: "\<forall>c\<in>set (takeWhile (\<lambda>c. \<not> is_linebreak c) s). \<not> is_linebreak c"
      by (auto dest: set_takeWhileD)
    show ?thesis
    proof (cases "dropWhile (\<lambda>c. \<not> is_linebreak c) s")
      case Nil
      with False "1.prems" first show ?thesis
        by (subst (asm) splitlines.simps) auto
    next
      case (Cons c r)
      show ?thesis
      proof (cases r)
        case Nil
        with False Cons "1.prems" first show ?thesis
          by (subst (asm) splitlines.simps) auto
      next
        case (Cons d r')
        from "1.prems" have "l = takeWhile (\<lambda>c. \<not> is_linebreak c) s \<or>
            l \<in> set (if c = 13 \<and> d = 10 then splitlines r' else splitlines (d # r'))"
          using False \<open>dropWhile (\<lambda>c. \<not> is_linebreak c) s = c # r\<close> Cons
          by (subst (asm) splitlines.simps) auto
        then show ?thesis
          using first "1.IH"(1) [OF False \<open>dropWhile (\<lambda>c. \<not> is_linebreak c) s = c # r\<close> Cons]
            "1.IH"(2) [OF False \<open>dropWhile (\<lambda>c. \<not> is_linebreak c) s = c # r\<close> Cons]
          by (auto split: if_splits)
      qed
    qed
  qed
qed

lemma until_fence_append:
  "backquote \<notin> set pre \<Longrightarrow> until_fence (pre @ fence @ rest) = Some (pre, rest)"
  by (induction pre) (auto simp: fence_def)

lemma skip_lang_newline: "skip_lang uni (10 # rest) = rest"
  by (simp add: skip_lang_def is_word_def)

lemma final_documented_paths_empty: "final_documented_paths uni cfg {} = {}"
  by (simp add: final_documented_paths_def)

lemma final_documented_paths_insert:
  "final_documented_paths uni cfg (insert x A) =
     (if final_keep uni cfg x then insert x (final_documented_paths uni cfg A)
      else final_documented_paths uni cfg A)"
  by (auto simp: final_documented_paths_def)

section \<open>The worked example of the specification\<close>

lemma splitlines_example:
  "splitlines example_block =
     [ustr ''src/'', ustr ''  utils.ts'', ustr ''  components/'', ustr ''    Button.tsx'']"
  by (simp add: example_block_def ustr_def splitlines.simps is_linebreak_def)

lemma parse_example:
  "documented_paths_full (parse_lines uni default_config
      [ustr ''src/'', ustr ''  utils.ts'', ustr ''  components/'', ustr ''    Button.tsx''])
   = {ustr ''src/components/Button.tsx'', ustr ''src/components/'', ustr ''src/utils.ts'',
      ustr ''src/''}"
  by (simp add: parse_lines_def initial_state_def process_line_def process_entry_def Let_def
      char_defs line_defs path_defs cfg_defs)

lemma keep_example:
  "final_documented_paths uni default_config
     {ustr ''src/components/Button.tsx'', ustr ''src/components/'', ustr ''src/utils.ts'',
      ustr ''src/''}
   = {ustr ''src/components/Button.tsx'', ustr ''src/components/'', ustr ''src/utils.ts'',
      ustr ''src/''}"
  by (simp add: final_documented_paths_insert final_documented_paths_empty final_keep_def
      char_defs path_defs cfg_defs)

text \<open>
  C2. A documentation text whose first fenced code block holds exactly the four lines
  \<open>src/\<close>, \<open>  utils.ts\<close>, \<open>  components/\<close>, \<open>    Button.tsx\<close> (whatever precedes the
  opening fence, as long as it has no backquote, and whatever follows the closing fence)
  parses to the set of \<open>src/\<close>, \<open>src/utils.ts\<close>, \<open>src/components/\<close> and
  \<open>src/components/Button.tsx\<close>, under the ignore rules of the source.
\<close>

theorem extract_example:
  assumes "backquote \<notin> set pre"
  shows "extract_documented_paths uni default_config
       (Content (pre @ fence @ 10 # example_block @ 10 # fence @ post))
     = Inr ([], Some {ustr ''src/'', ustr ''src/utils.ts'', ustr ''src/components/'',
                      ustr ''src/components/Button.tsx''})"
proof -
  have body: "backquote \<notin> set (example_block @ [10])"
    by (simp add: example_block_def ustr_def backquote_def)
  have "until_fence (pre @ fence @ 10 # example_block @ 10 # fence @ post)
        = Some (pre, 10 # example_block @ 10 # fence @ post)"
    by (rule until_fence_append [OF assms])
  moreover have "until_fence ((example_block @ [10]) @ fence @ post)
        = Some (example_block @ [10], post)"
    by (rule until_fence_append [OF body])
  ultimately have m:
    "code_block_match uni (pre @ fence @ 10 # example_block @ 10 # fence @ post)
      = Some (example_block @ [10])"
    by (simp add: code_block_match_def skip_lang_newline)
  have s: "py_strip (example_block @ [10]) = example_block"
    by (simp add: example_block_def ustr_def py_strip_def is_space_def)
  have "extract_documented_paths uni default_config
       (Content (pre @ fence @ 10 # example_block @ 10 # fence @ post))
     = Inr ([], Some {ustr ''src/components/Button.tsx'', ustr ''src/components/'',
                      ustr ''src/utils.ts'', ustr ''src/''})"
    by (simp only: extract_documented_paths_def m s splitlines_example parse_example
        keep_example file_read.case option.case)
  also have "{ustr ''src/components/Button.tsx'', ustr ''src/components/'',
              ustr ''src/utils.ts'', ustr ''src/''}
     = {ustr ''src/'', ustr ''src/utils.ts'', ustr ''src/components/'',
        ustr ''src/components/Button.tsx''}"
    by blast
  finally show ?thesis .
qed

theorem extract_example_witness:
  "backquote \<notin> set (ustr ''# Layout'' @ [10]) \<and>
   extract_documented_paths ascii_tables default_config
       (Content ((ustr ''# Layout'' @ [10]) @ fence @ 10 # example_block @ 10 # fence @ [10]))
     = Inr ([], Some {ustr ''src/'', ustr ''src/utils.ts'', ustr ''src/components/'',
                      ustr ''src/components/Button.tsx''})"
proof -
  have h: "backquote \<notin> set (ustr ''# Layout'' @ [10])"
    by (simp add: ustr_def backquote_def)
  show ?thesis
    using h extract_example [OF h] by blast
qed

section \<open>Wildcard lines\<close>

text \<open>
  C9. A diagram line whose node token contains the wildcard glyph \<open>*\<close> leaves the state of
  the parser as it is, result set and stack, and so the diagram parses as it would without
  that line.
\<close>

theorem wildcard_line_skipped:
  assumes "star \<in> set (node_part_of line)"
  shows "process_line uni cfg st line = st \<and>
         parse_lines uni cfg (before @ line # after) = parse_lines uni cfg (before @ after)"
proof -
  have step: "process_line uni cfg s line = s" for s
    using assms
    by (auto simp: process_line_def line_entry_def process_entry_def Let_def
        split: option.splits)
  show ?thesis
    by (simp add: step parse_lines_def)
qed

theorem wildcard_line_skipped_witness:
  "star \<in> set (node_part_of (ustr ''  *.log'')) \<and>
   process_line ascii_tables default_config initial_state (ustr ''  *.log'') = initial_state \<and>
   parse_lines ascii_tables default_config ([ustr ''src/''] @ ustr ''  *.log'' # [ustr ''  a.ts''])
     = parse_lines ascii_tables default_config ([ustr ''src/''] @ [ustr ''  a.ts''])"
proof -
  have h: "star \<in> set (node_part_of (ustr ''  *.log''))"
    by (simp add: char_defs line_defs)
  show ?thesis
    using h wildcard_line_skipped [OF h] by blast
qed

section \<open>The parse stack\<close>

lemma pop_stack_dropWhile: "pop_stack indent stack = dropWhile (\<lambda>e. indent \<le> snd e) stack"
  by (induction stack) auto

lemma entry_path_cases:
  "entry_path stack node =
     (if (case stack of [] \<Rightarrow> [] | (p, i) # rest \<Rightarrow> p) \<noteq> [] \<and> \<not> startswith_slash node
      then (case stack of [] \<Rightarrow> [] | (p, i) # rest \<Rightarrow> p) @ [slash] @ node else node)"
  by (auto simp: entry_path_def split: list.splits)

lemma entry_path_absolute: "startswith_slash node \<Longrightarrow> entry_path stack node = node"
  by (simp add: entry_path_cases)

text \<open>What one entry can do to the result set and to the stack.\<close>

lemma process_entry_documented:
  "documented_paths_full (process_entry uni cfg st prefix node) = documented_paths_full st \<or>
   documented_paths_full (process_entry uni cfg st prefix node) =
     insert (final_form (entry_path (pop_stack (length prefix) (path_stack st)) node)
               (endswith_slash node))
       (documented_paths_full st)"
  by (simp add: process_entry_def Let_def entry_path_def final_form_def split: list.splits)

lemma process_entry_stack:
  "path_stack (process_entry uni cfg st prefix node) = path_stack st \<or>
   path_stack (process_entry uni cfg st prefix node) = pop_stack (length prefix) (path_stack st) \<or>
   path_stack (process_entry uni cfg st prefix node) =
     (rstrip_slash (entry_path (pop_stack (length prefix) (path_stack st)) node), length prefix) #
       pop_stack (length prefix) (path_stack st)"
  by (simp add: process_entry_def Let_def entry_path_def split: list.splits)

lemma process_entry_pushed:
  assumes "endswith_slash node"
    and "\<not> dir_withheld cfg (pop_stack (length prefix) (path_stack st)) node"
  shows "path_stack (process_entry uni cfg st prefix node) =
     (rstrip_slash (entry_path (pop_stack (length prefix) (path_stack st)) node), length prefix) #
       pop_stack (length prefix) (path_stack st)"
proof -
  have "pop_stack (length prefix) [] = []" by simp
  then have e: "path_stack st = [] \<Longrightarrow>
      entry_path (pop_stack (length prefix) (path_stack st)) node = node"
    by (simp add: entry_path_def)
  show ?thesis
    using assms e
    unfolding dir_withheld_def process_entry_def Let_def entry_path_cases
    by (auto split: if_splits)
qed

lemma process_entry_withheld:
  assumes "endswith_slash node"
    and "dir_withheld cfg (pop_stack (length prefix) (path_stack st)) node"
  shows "process_entry uni cfg st prefix node = st \<or>
         process_entry uni cfg st prefix node =
           st\<lparr>path_stack := pop_stack (length prefix) (path_stack st)\<rparr>"
  using assms
  unfolding dir_withheld_def process_entry_def Let_def entry_path_cases
  by (auto split: if_splits)

lemma parse_src: "parse_lines uni default_config [ustr ''src/''] = src_state"
  by (simp add: src_state_def parse_defs char_defs line_defs path_defs cfg_defs)

lemma pop_stack_split:
  "pop_stack indent stack = rest \<Longrightarrow>
     stack = takeWhile (\<lambda>e. indent \<le> snd e) stack @ rest \<and>
     (\<forall>e\<in>set (takeWhile (\<lambda>e. indent \<le> snd e) stack). indent \<le> snd e) \<and>
     (rest = [] \<or> snd (hd rest) < indent)"
proof -
  assume r: "pop_stack indent stack = rest"
  have a: "stack = takeWhile (\<lambda>e. indent \<le> snd e) stack @ rest"
    using takeWhile_dropWhile_id [of "\<lambda>e. indent \<le> snd e" stack] r
    by (simp only: pop_stack_dropWhile)
  have b: "\<forall>e\<in>set (takeWhile (\<lambda>e. indent \<le> snd e) stack). indent \<le> snd e"
    by (auto dest: set_takeWhileD)
  have c: "rest = [] \<or> snd (hd rest) < indent"
  proof (cases rest)
    case Nil
    then show ?thesis by simp
  next
    case (Cons e r')
    have ne: "dropWhile (\<lambda>e. indent \<le> snd e) stack \<noteq> []"
      using r Cons by (simp add: pop_stack_dropWhile)
    have "\<not> indent \<le> snd (hd (dropWhile (\<lambda>e. indent \<le> snd e) stack))"
      by (rule hd_dropWhile [OF ne])
    then show ?thesis
      using r by (simp add: pop_stack_dropWhile)
  qed
  from a b c show ?thesis by blast
qed

lemma pop_stack_unique:
  assumes "stack = popped @ rest"
    and "\<forall>e\<in>set popped. indent \<le> snd e"
    and "rest = [] \<or> snd (hd rest) < indent"
  shows "pop_stack indent stack = rest"
proof -
  have "dropWhile (\<lambda>e. indent \<le> snd e) (popped @ rest) = dropWhile (\<lambda>e. indent \<le> snd e) rest"
    using assms(2) by (simp add: dropWhile_append)
  also have "\<dots> = rest"
    using assms(3) by (cases rest) auto
  finally show ?thesis
    using assms(1) by (simp add: pop_stack_dropWhile)
qed

lemma process_entry_skipped:
  "skipped_early cfg st node \<Longrightarrow> process_entry uni cfg st prefix node = st"
  by (auto simp: skipped_early_def process_entry_def Let_def)

lemma process_entry_result:
  assumes "\<not> skipped_early cfg st node"
  shows "process_entry uni cfg st prefix node =
     entry_result uni cfg st (pop_stack (length prefix) (path_stack st)) (length prefix) node"
  using assms
  unfolding skipped_early_def process_entry_def entry_result_def dropped_late_def Let_def
    entry_path_cases final_form_def
  by (auto split: if_splits)

lemma nested_suffix: "nested (ups @ rest) \<Longrightarrow> nested rest"
  by (simp add: nested_def sorted_wrt_append)

lemma nested_below:
  assumes "nested rest" and "rest = [] \<or> snd (hd rest) < indent"
  shows "\<forall>e\<in>set rest. snd e < indent"
proof (cases rest)
  case Nil
  then show ?thesis by simp
next
  case (Cons e r)
  with assms have "snd e < indent" and "\<forall>x\<in>set r. snd x < snd e"
    by (auto simp: nested_def)
  with Cons show ?thesis by auto
qed

lemma nested_entry_result:
  assumes "nested rest" and "rest = [] \<or> snd (hd rest) < indent"
  shows "nested (path_stack (entry_result uni cfg st rest indent node))"
  using assms nested_below [OF assms]
  by (auto simp: entry_result_def nested_def)

lemma nested_process_entry:
  assumes "nested (path_stack st)"
  shows "nested (path_stack (process_entry uni cfg st prefix node))"
proof (cases "skipped_early cfg st node")
  case True
  with assms show ?thesis by (simp add: process_entry_skipped)
next
  case False
  define rest where "rest = pop_stack (length prefix) (path_stack st)"
  have s: "path_stack st = takeWhile (\<lambda>e. length prefix \<le> snd e) (path_stack st) @ rest"
    and t: "rest = [] \<or> snd (hd rest) < length prefix"
    using pop_stack_split [of "length prefix" "path_stack st" rest] rest_def by blast+
  have "nested rest"
    using assms s nested_suffix by metis
  then show ?thesis
    using t by (simp add: process_entry_result [OF False] rest_def [symmetric] nested_entry_result)
qed

lemma nested_process_line:
  "nested (path_stack st) \<Longrightarrow> nested (path_stack (process_line uni cfg st line))"
  by (auto simp: process_line_def nested_process_entry split: option.splits)

lemma nested_foldl:
  "nested (path_stack st) \<Longrightarrow> nested (path_stack (foldl (process_line uni cfg) st lines))"
  by (induction lines arbitrary: st) (simp_all add: nested_process_line)

lemma nested_parse_lines: "nested (path_stack (parse_lines uni cfg lines))"
proof -
  have "nested (path_stack initial_state)"
    by (simp add: initial_state_def nested_def)
  then show ?thesis
    unfolding parse_lines_def by (rule nested_foldl)
qed

text \<open>A line of greater indentation leaves a directory and what is below it on the stack.\<close>

lemma deeper_entry_keeps:
  assumes "path_stack st = ups @ (d, i) # below"
    and "\<forall>e\<in>set ups. i \<le> snd e"
    and "i < length prefix"
  shows "\<exists>ups'. path_stack (process_entry uni cfg st prefix node) = ups' @ (d, i) # below \<and>
           (\<forall>e\<in>set ups'. i \<le> snd e)"
proof (cases "skipped_early cfg st node")
  case True
  with assms show ?thesis by (auto simp: process_entry_skipped)
next
  case False
  have p: "pop_stack (length prefix) (path_stack st) =
      dropWhile (\<lambda>e. length prefix \<le> snd e) ups @ (d, i) # below"
    using assms(3) by (simp add: assms(1) pop_stack_dropWhile dropWhile_append)
  have u: "\<forall>e\<in>set (dropWhile (\<lambda>e. length prefix \<le> snd e) ups). i \<le> snd e"
    using assms(2) by (auto dest: set_dropWhileD)
  have "path_stack (process_entry uni cfg st prefix node) =
          dropWhile (\<lambda>e. length prefix \<le> snd e) ups @ (d, i) # below \<or>
        (\<exists>x. path_stack (process_entry uni cfg st prefix node) =
          ((x, length prefix) # dropWhile (\<lambda>e. length prefix \<le> snd e) ups) @ (d, i) # below)"
    by (simp add: process_entry_result [OF False] p entry_result_def)
  then show ?thesis
  proof
    assume "path_stack (process_entry uni cfg st prefix node) =
          dropWhile (\<lambda>e. length prefix \<le> snd e) ups @ (d, i) # below"
    with u show ?thesis by blast
  next
    assume "\<exists>x. path_stack (process_entry uni cfg st prefix node) =
          ((x, length prefix) # dropWhile (\<lambda>e. length prefix \<le> snd e) ups) @ (d, i) # below"
    then obtain x where x: "path_stack (process_entry uni cfg st prefix node) =
          ((x, length prefix) # dropWhile (\<lambda>e. length prefix \<le> snd e) ups) @ (d, i) # below"
      by blast
    have "\<forall>e\<in>set ((x, length prefix) # dropWhile (\<lambda>e. length prefix \<le> snd e) ups). i \<le> snd e"
      using u assms(3) by simp
    with x show ?thesis by blast
  qed
qed

lemma deeper_lines_keep:
  assumes "list_all (deeper_line i) deeper"
    and "path_stack st = ups @ (d, i) # below"
    and "\<forall>e\<in>set ups. i \<le> snd e"
  shows "\<exists>ups'. path_stack (foldl (process_line uni cfg) st deeper) = ups' @ (d, i) # below \<and>
           (\<forall>e\<in>set ups'. i \<le> snd e)"
  using assms
proof (induction deeper arbitrary: st ups)
  case Nil
  then show ?case by simp
next
  case (Cons l ls)
  have "\<exists>ups'. path_stack (process_line uni cfg st l) = ups' @ (d, i) # below \<and>
           (\<forall>e\<in>set ups'. i \<le> snd e)"
  proof (cases "line_entry l")
    case None
    with Cons.prems show ?thesis by (auto simp: process_line_def)
  next
    case (Some pn)
    obtain prefix node where pn: "pn = (prefix, node)" by (cases pn)
    from Cons.prems(1) Some pn have "i < length prefix"
      by (simp add: deeper_line_def)
    from deeper_entry_keeps [OF Cons.prems(2) Cons.prems(3) this]
    show ?thesis by (simp add: process_line_def Some pn)
  qed
  then obtain ups' where u: "path_stack (process_line uni cfg st l) = ups' @ (d, i) # below"
      "\<forall>e\<in>set ups'. i \<le> snd e"
    by blast
  from Cons.prems(1) have "list_all (deeper_line i) ls" by simp
  from Cons.IH [OF this u] show ?case by simp
qed

text \<open>
  The line at the indentation of a directory on the stack unwinds the stack to what was
  below the directory.
\<close>

lemma sibling_entry:
  assumes "path_stack st = ups @ (d, i) # below"
    and "\<forall>e\<in>set ups. i \<le> snd e"
    and "below = [] \<or> snd (hd below) < i"
    and "length prefix = i"
    and "star \<notin> set node"
    and "\<not> (endswith_slash node \<and> rstrip_slash node \<in> ignore_dirs cfg)"
  shows "process_entry uni cfg st prefix node = entry_result uni cfg st below i node"
proof -
  have ns: "\<not> skipped_early cfg st node"
    using assms(1,5,6) by (simp add: skipped_early_def)
  have "\<forall>e\<in>set (ups @ [(d, i)]). i \<le> snd e"
    using assms(2) by simp
  then have "pop_stack i ((ups @ [(d, i)]) @ below) = below"
    using assms(3) pop_stack_unique [of "(ups @ [(d, i)]) @ below" "ups @ [(d, i)]" below i]
    by blast
  then have "pop_stack (length prefix) (path_stack st) = below"
    by (simp add: assms(1,4))
  then show ?thesis
    by (simp add: process_entry_result [OF ns] assms(4))
qed

lemma parse_components:
  "parse_lines uni default_config [ustr ''src/'', ustr ''  components/''] = components_state"
  by (simp add: components_state_def parse_defs char_defs line_defs path_defs cfg_defs)

lemma extract_indented_doc:
  "extract_documented_paths uni default_config (Content indented_doc) =
     Inr ([], Some {ustr ''components/utils.ts'', ustr ''components/Button.tsx'',
                    ustr ''components/''})"
proof -
  have b: "backquote \<notin> set (ustr ''  components/'' @ 10 # ustr ''    Button.tsx'' @ 10 #
     ustr ''  utils.ts'' @ [10])"
    by (simp add: char_defs)
  have "code_block_match uni indented_doc = Some (ustr ''  components/'' @ 10 #
     ustr ''    Button.tsx'' @ 10 # ustr ''  utils.ts'' @ [10])"
    using until_fence_append [of "[]"] until_fence_append [OF b, of "[]"]
    by (simp add: code_block_match_def indented_doc_def skip_lang_newline)
  moreover have "splitlines (py_strip (ustr ''  components/'' @ 10 #
     ustr ''    Button.tsx'' @ 10 # ustr ''  utils.ts'' @ [10]))
      = [ustr ''components/'', ustr ''    Button.tsx'', ustr ''  utils.ts'']"
    by (simp add: py_strip_def is_space_def ustr_def splitlines.simps is_linebreak_def)
  moreover have "documented_paths_full (parse_lines uni default_config
       [ustr ''components/'', ustr ''    Button.tsx'', ustr ''  utils.ts''])
      = {ustr ''components/utils.ts'', ustr ''components/Button.tsx'', ustr ''components/''}"
    by (simp add: parse_defs char_defs line_defs path_defs cfg_defs)
  moreover have "final_documented_paths uni default_config
       {ustr ''components/utils.ts'', ustr ''components/Button.tsx'', ustr ''components/''}
      = {ustr ''components/utils.ts'', ustr ''components/Button.tsx'', ustr ''components/''}"
    by (simp add: final_documented_paths_insert final_documented_paths_empty final_keep_def
        char_defs path_defs cfg_defs)
  ultimately show ?thesis
    by (simp add: extract_documented_paths_def)
qed

text \<open>
  C3, as amended. A line leaves the state, stack included, as it is when it has no node
  token, and when its token holds a wildcard, is an ignored name met on an empty stack, or
  is a directory token that is an ignored directory name. For every other line the stack is
  unwound by popping while it is not empty and the indentation of the line (the length of
  its decoration prefix) is at most the indentation on top: what is popped are entries of
  at least that indentation, and what is left is empty or has a smaller indentation on
  top. The path of the entry is the node token joined by \<open>/\<close> to the path on top of the
  unwound stack when that path is not empty and the token does not begin with \<open>/\<close>, and
  the node token alone otherwise; the line leaves the unwound stack, with the path and the
  indentation of the line on top of it when the entry is a directory that passes the later
  tests. The indentations on the stack of the parser always grow strictly towards the top,
  and a line with a token that is neither a wildcard nor an ignored directory, at the
  indentation of a directory on top of the stack and met after lines of greater
  indentation only, is processed on the stack below that directory: it attaches to the
  parent of the directory, not to the directory.
\<close>

theorem unwind_then_join:
  "(line_entry line = None \<longrightarrow> process_line uni cfg st line = st) \<and>
   (line_entry line = Some (prefix, node) \<longrightarrow> skipped_early cfg st node \<longrightarrow>
      process_line uni cfg st line = st) \<and>
   (line_entry line = Some (prefix, node) \<longrightarrow> \<not> skipped_early cfg st node \<longrightarrow>
      (\<exists>popped rest.
         path_stack st = popped @ rest \<and> (\<forall>e\<in>set popped. length prefix \<le> snd e) \<and>
         (rest = [] \<or> snd (hd rest) < length prefix) \<and>
         process_line uni cfg st line = entry_result uni cfg st rest (length prefix) node)) \<and>
   nested (path_stack (parse_lines uni cfg lines)) \<and>
   (nested ((d, i) # below) \<longrightarrow> path_stack dir_st = (d, i) # below \<longrightarrow>
    list_all (deeper_line i) deeper \<longrightarrow>
    line_entry sibling = Some (sibling_prefix, sibling_node) \<longrightarrow> length sibling_prefix = i \<longrightarrow>
    star \<notin> set sibling_node \<longrightarrow>
    \<not> (endswith_slash sibling_node \<and> rstrip_slash sibling_node \<in> ignore_dirs cfg) \<longrightarrow>
      process_line uni cfg (foldl (process_line uni cfg) dir_st deeper) sibling =
        entry_result uni cfg (foldl (process_line uni cfg) dir_st deeper) below i sibling_node)"
proof -
  have none: "process_line uni cfg st line = st" if "line_entry line = None"
    using that by (simp add: process_line_def)
  have early: "process_line uni cfg st line = st"
    if "line_entry line = Some (prefix, node)" and "skipped_early cfg st node"
    using that by (simp add: process_line_def process_entry_skipped)
  have late: "\<exists>popped rest.
         path_stack st = popped @ rest \<and> (\<forall>e\<in>set popped. length prefix \<le> snd e) \<and>
         (rest = [] \<or> snd (hd rest) < length prefix) \<and>
         process_line uni cfg st line = entry_result uni cfg st rest (length prefix) node"
    if l: "line_entry line = Some (prefix, node)" and ns: "\<not> skipped_early cfg st node"
  proof -
    define rest where "rest = pop_stack (length prefix) (path_stack st)"
    have "path_stack st = takeWhile (\<lambda>e. length prefix \<le> snd e) (path_stack st) @ rest \<and>
        (\<forall>e\<in>set (takeWhile (\<lambda>e. length prefix \<le> snd e) (path_stack st)). length prefix \<le> snd e) \<and>
        (rest = [] \<or> snd (hd rest) < length prefix)"
      using rest_def by (intro pop_stack_split) simp
    moreover have "process_line uni cfg st line = entry_result uni cfg st rest (length prefix) node"
      by (simp add: process_line_def l process_entry_result [OF ns] rest_def)
    ultimately show ?thesis by blast
  qed
  have sib: "process_line uni cfg (foldl (process_line uni cfg) dir_st deeper) sibling =
        entry_result uni cfg (foldl (process_line uni cfg) dir_st deeper) below i sibling_node"
    if n: "nested ((d, i) # below)" and s: "path_stack dir_st = (d, i) # below"
      and dl: "list_all (deeper_line i) deeper"
      and l: "line_entry sibling = Some (sibling_prefix, sibling_node)"
      and len: "length sibling_prefix = i" and ns: "star \<notin> set sibling_node"
      and ni: "\<not> (endswith_slash sibling_node \<and> rstrip_slash sibling_node \<in> ignore_dirs cfg)"
  proof -
    have b: "below = [] \<or> snd (hd below) < i"
      using n by (cases below) (auto simp: nested_def)
    have "path_stack dir_st = [] @ (d, i) # below" and "\<forall>e\<in>set []. i \<le> snd e"
      using s by simp_all
    from deeper_lines_keep [OF dl this]
    obtain ups where u:
        "path_stack (foldl (process_line uni cfg) dir_st deeper) = ups @ (d, i) # below"
        "\<forall>e\<in>set ups. i \<le> snd e"
      by blast
    show ?thesis
      by (simp add: process_line_def l sibling_entry [OF u b len ns ni])
  qed
  show ?thesis
    using none early late sib nested_parse_lines [of uni cfg lines] by blast
qed

theorem unwind_then_join_witness:
  "nested ((ustr ''src/components'', 2) # [(ustr ''src'', 0)]) \<and>
   path_stack components_state = (ustr ''src/components'', 2) # [(ustr ''src'', 0)] \<and>
   list_all (deeper_line 2) [ustr ''    Button.tsx''] \<and>
   line_entry (ustr ''  utils.ts'') = Some (ustr ''  '', ustr ''utils.ts'') \<and>
   length (ustr ''  '') = 2 \<and>
   star \<notin> set (ustr ''utils.ts'') \<and>
   \<not> endswith_slash (ustr ''utils.ts'') \<and>
   process_line ascii_tables default_config
     (foldl (process_line ascii_tables default_config) components_state [ustr ''    Button.tsx''])
     (ustr ''  utils.ts'') =
     entry_result ascii_tables default_config
       (foldl (process_line ascii_tables default_config) components_state [ustr ''    Button.tsx''])
       [(ustr ''src'', 0)] 2 (ustr ''utils.ts'') \<and>
   line_entry (ustr ''node_modules/'') = Some ([], ustr ''node_modules/'') \<and>
   skipped_early default_config components_state (ustr ''node_modules/'') \<and>
   process_line ascii_tables default_config components_state (ustr ''node_modules/'') =
     components_state"
proof -
  have a: "nested ((ustr ''src/components'', 2) # [(ustr ''src'', 0)])"
    by (simp add: nested_def)
  have b: "path_stack components_state = (ustr ''src/components'', 2) # [(ustr ''src'', 0)]"
    by (simp add: components_state_def)
  have c: "list_all (deeper_line 2) [ustr ''    Button.tsx'']"
    by (simp add: deeper_line_def char_defs line_defs)
  have d: "line_entry (ustr ''  utils.ts'') = Some (ustr ''  '', ustr ''utils.ts'')"
    by (simp add: char_defs line_defs)
  have e: "length (ustr ''  '') = 2"
    by (simp add: ustr_def)
  have f: "star \<notin> set (ustr ''utils.ts'')"
    by (simp add: char_defs)
  have g: "\<not> endswith_slash (ustr ''utils.ts'')"
    by (simp add: char_defs path_defs)
  have h: "line_entry (ustr ''node_modules/'') = Some ([], ustr ''node_modules/'')"
    by (simp add: char_defs line_defs)
  have k: "skipped_early default_config components_state (ustr ''node_modules/'')"
    by (simp add: skipped_early_def char_defs path_defs cfg_defs)
  show ?thesis
    using a b c d e f g h k
      unwind_then_join [where cfg = default_config and uni = ascii_tables
        and st = components_state and line = "ustr ''node_modules/''" and prefix = "[]"
        and node = "ustr ''node_modules/''"
        and d = "ustr ''src/components''" and i = 2 and below = "[(ustr ''src'', 0)]"
        and dir_st = components_state and deeper = "[ustr ''    Button.tsx'']"
        and sibling = "ustr ''  utils.ts''" and sibling_prefix = "ustr ''  ''"
        and sibling_node = "ustr ''utils.ts''"]
    by blast
qed

text \<open>
  C3 as stated fails in three ways. After the line \<open>src/\<close> the stack is not empty, and
  the line \<open>  /abs.ts\<close> does not pop it, yet the entry is \<open>/abs.ts\<close> and not
  \<open>src//abs.ts\<close>. After \<open>src/\<close> and \<open>  components/\<close> the line \<open>node_modules/\<close>
  has indentation 0, yet it leaves both directories on the stack. And in a block with the
  lines \<open>  components/\<close>, \<open>    Button.tsx\<close>, \<open>  utils.ts\<close> the first line loses its
  indentation when the block is stripped, so the sibling \<open>utils.ts\<close> is attached to
  \<open>components\<close>.
\<close>

theorem join_counterexample:
  "parse_lines ascii_tables default_config [ustr ''src/''] = src_state \<and>
   line_entry (ustr ''  /abs.ts'') = Some (ustr ''  '', ustr ''/abs.ts'') \<and>
   pop_stack (length (ustr ''  '')) (path_stack src_state) = [(ustr ''src'', 0)] \<and>
   final_form
     (entry_path_claimed (pop_stack (length (ustr ''  '')) (path_stack src_state))
        (ustr ''/abs.ts''))
     (endswith_slash (ustr ''/abs.ts'')) = ustr ''src//abs.ts'' \<and>
   process_line ascii_tables default_config src_state (ustr ''  /abs.ts'')
   = \<lparr>documented_paths_full = {ustr ''/abs.ts'', ustr ''src/''},
      path_stack = [(ustr ''src'', 0)]\<rparr> \<and>
   ustr ''src//abs.ts'' \<notin> {ustr ''/abs.ts'', ustr ''src/''} \<and>
   parse_lines ascii_tables default_config [ustr ''src/'', ustr ''  components/''] =
     components_state \<and>
   line_entry (ustr ''node_modules/'') = Some ([], ustr ''node_modules/'') \<and>
   pop_stack (length ([] :: ustring)) (path_stack components_state) = [] \<and>
   path_stack (process_line ascii_tables default_config components_state
      (ustr ''node_modules/'')) = [(ustr ''src/components'', 2), (ustr ''src'', 0)] \<and>
   extract_documented_paths ascii_tables default_config (Content indented_doc) =
     Inr ([], Some {ustr ''components/utils.ts'', ustr ''components/Button.tsx'',
                    ustr ''components/''}) \<and>
   ustr ''utils.ts'' \<notin> {ustr ''components/utils.ts'', ustr ''components/Button.tsx'',
                    ustr ''components/''}"
proof -
  have a: "parse_lines ascii_tables default_config [ustr ''src/''] = src_state \<and>
   line_entry (ustr ''  /abs.ts'') = Some (ustr ''  '', ustr ''/abs.ts'') \<and>
   pop_stack (length (ustr ''  '')) (path_stack src_state) = [(ustr ''src'', 0)] \<and>
   final_form
     (entry_path_claimed (pop_stack (length (ustr ''  '')) (path_stack src_state))
        (ustr ''/abs.ts''))
     (endswith_slash (ustr ''/abs.ts'')) = ustr ''src//abs.ts'' \<and>
   process_line ascii_tables default_config src_state (ustr ''  /abs.ts'')
   = \<lparr>documented_paths_full = {ustr ''/abs.ts'', ustr ''src/''},
      path_stack = [(ustr ''src'', 0)]\<rparr> \<and>
   ustr ''src//abs.ts'' \<notin> {ustr ''/abs.ts'', ustr ''src/''}"
    by (simp add: src_state_def parse_defs char_defs line_defs path_defs cfg_defs
        entry_path_claimed_def final_form_def)
  have b: "line_entry (ustr ''node_modules/'') = Some ([], ustr ''node_modules/'') \<and>
   pop_stack (length ([] :: ustring)) (path_stack components_state) = [] \<and>
   path_stack (process_line ascii_tables default_config components_state
      (ustr ''node_modules/'')) = [(ustr ''src/components'', 2), (ustr ''src'', 0)]"
    by (simp add: components_state_def parse_defs char_defs line_defs path_defs cfg_defs)
  have c: "ustr ''utils.ts'' \<notin> {ustr ''components/utils.ts'', ustr ''components/Button.tsx'',
                    ustr ''components/''}"
    by (simp add: char_defs)
  show ?thesis
    using a b c parse_components [of ascii_tables] extract_indented_doc [of ascii_tables]
    by blast
qed

text \<open>
  C10. A node token that begins with \<open>/\<close> is never joined to the path on top of the
  stack. The only path such an entry can add to the result set is the token itself (with
  its trailing slashes reduced to one for a directory, to none for a file), the only pair
  it can push holds the token without its trailing slashes, and when none of the ignore
  tests fires the token itself is added, whatever the stack holds.
\<close>

theorem absolute_token_not_joined:
  assumes "startswith_slash node"
  shows "(p \<in> documented_paths_full (process_entry uni cfg st prefix node) \<longrightarrow>
          p \<notin> documented_paths_full st \<longrightarrow> p = final_form node (endswith_slash node)) \<and>
         (path_stack (process_entry uni cfg st prefix node) = path_stack st \<or>
          path_stack (process_entry uni cfg st prefix node) =
            pop_stack (length prefix) (path_stack st) \<or>
          path_stack (process_entry uni cfg st prefix node) =
            (rstrip_slash node, length prefix) # pop_stack (length prefix) (path_stack st)) \<and>
         (star \<notin> set node \<and>
          rstrip_slash node \<notin> ignore_dirs cfg \<union> ignore_files cfg \<and>
          path_name (rstrip_slash node) \<notin> ignore_dirs cfg \<union> ignore_files cfg \<and>
          (endswith_slash node \<or>
           py_lower uni (path_suffix (rstrip_slash node)) \<notin> ignore_extensions cfg) \<and>
          \<not> list_ex (\<lambda>part. part \<in> ignore_dirs cfg)
               (path_parts (final_form node (endswith_slash node))) \<longrightarrow>
          documented_paths_full (process_entry uni cfg st prefix node) =
            insert (final_form node (endswith_slash node)) (documented_paths_full st))"
proof -
  have e: "entry_path (pop_stack (length prefix) (path_stack st)) node = node"
    using assms by (rule entry_path_absolute)
  have added: "documented_paths_full (process_entry uni cfg st prefix node) =
            insert (final_form node (endswith_slash node)) (documented_paths_full st)"
    if "star \<notin> set node"
      and "rstrip_slash node \<notin> ignore_dirs cfg \<union> ignore_files cfg"
      and "path_name (rstrip_slash node) \<notin> ignore_dirs cfg \<union> ignore_files cfg"
      and "endswith_slash node \<or>
           py_lower uni (path_suffix (rstrip_slash node)) \<notin> ignore_extensions cfg"
      and "\<not> list_ex (\<lambda>part. part \<in> ignore_dirs cfg)
               (path_parts (final_form node (endswith_slash node)))"
    using that assms
    by (auto simp: process_entry_def Let_def final_form_def)
  show ?thesis
    using process_entry_documented [of uni cfg st prefix node]
      process_entry_stack [of uni cfg st prefix node] added
    unfolding e by blast
qed

theorem absolute_token_not_joined_witness:
  "startswith_slash (ustr ''/abs.ts'') \<and>
   path_stack src_state = [(ustr ''src'', 0)] \<and>
   final_form (ustr ''/abs.ts'') (endswith_slash (ustr ''/abs.ts'')) = ustr ''/abs.ts'' \<and>
   documented_paths_full
     (process_entry ascii_tables default_config src_state (ustr ''  '') (ustr ''/abs.ts'')) =
     insert (final_form (ustr ''/abs.ts'') (endswith_slash (ustr ''/abs.ts'')))
       (documented_paths_full src_state)"
proof -
  have h: "startswith_slash (ustr ''/abs.ts'')"
    by (simp add: char_defs path_defs)
  have f: "final_form (ustr ''/abs.ts'') (endswith_slash (ustr ''/abs.ts'')) = ustr ''/abs.ts''"
    by (simp add: final_form_def char_defs path_defs)
  have c: "star \<notin> set (ustr ''/abs.ts'') \<and>
          rstrip_slash (ustr ''/abs.ts'') \<notin>
            ignore_dirs default_config \<union> ignore_files default_config \<and>
          path_name (rstrip_slash (ustr ''/abs.ts'')) \<notin>
            ignore_dirs default_config \<union> ignore_files default_config \<and>
          (endswith_slash (ustr ''/abs.ts'') \<or>
           py_lower ascii_tables (path_suffix (rstrip_slash (ustr ''/abs.ts''))) \<notin>
             ignore_extensions default_config) \<and>
          \<not> list_ex (\<lambda>part. part \<in> ignore_dirs default_config)
               (path_parts (final_form (ustr ''/abs.ts'') (endswith_slash (ustr ''/abs.ts''))))"
    by (simp add: final_form_def char_defs path_defs cfg_defs)
  have s: "path_stack src_state = [(ustr ''src'', 0)]"
    by (simp add: src_state_def)
  show ?thesis
    using h f c s
      absolute_token_not_joined [OF h, of "ustr ''/abs.ts''" ascii_tables default_config
        src_state "ustr ''  ''"]
    by blast
qed

text \<open>
  C6, as amended. A directory token is kept off the stack exactly by the tests of
  \<open>dir_withheld\<close>: a wildcard, an ignored directory name, or an ignored file name. Then
  the entry leaves the state as it is or only unwinds the stack. Every other directory
  token is pushed with its path and the indentation of its line, also when the path was
  kept out of the result set because one of its components is an ignored directory name.
\<close>

theorem directory_push_rule:
  assumes "endswith_slash node"
  shows "(\<not> dir_withheld cfg (pop_stack (length prefix) (path_stack st)) node \<longrightarrow>
          path_stack (process_entry uni cfg st prefix node) =
            (rstrip_slash (entry_path (pop_stack (length prefix) (path_stack st)) node),
             length prefix) # pop_stack (length prefix) (path_stack st)) \<and>
         (dir_withheld cfg (pop_stack (length prefix) (path_stack st)) node \<longrightarrow>
          process_entry uni cfg st prefix node = st \<or>
          process_entry uni cfg st prefix node =
            st\<lparr>path_stack := pop_stack (length prefix) (path_stack st)\<rparr>)"
  using process_entry_pushed [OF assms] process_entry_withheld [OF assms]
  by blast

theorem directory_push_rule_witness:
  "endswith_slash (ustr ''a/.git/b/'') \<and>
   \<not> dir_withheld default_config (pop_stack (length (ustr ''  '')) (path_stack src_state))
       (ustr ''a/.git/b/'') \<and>
   process_entry ascii_tables default_config src_state (ustr ''  '') (ustr ''a/.git/b/'') =
     \<lparr>documented_paths_full = {ustr ''src/''},
      path_stack = [(ustr ''src/a/.git/b'', 2), (ustr ''src'', 0)]\<rparr>"
proof -
  have h: "endswith_slash (ustr ''a/.git/b/'')"
    by (simp add: char_defs path_defs)
  have w: "\<not> dir_withheld default_config (pop_stack (length (ustr ''  '')) (path_stack src_state))
       (ustr ''a/.git/b/'')"
    by (simp add: dir_withheld_def entry_path_def src_state_def char_defs path_defs cfg_defs)
  have d: "documented_paths_full
      (process_entry ascii_tables default_config src_state (ustr ''  '') (ustr ''a/.git/b/''))
      = {ustr ''src/''}"
    by (simp add: src_state_def parse_defs char_defs path_defs cfg_defs)
  have e: "(rstrip_slash (entry_path (pop_stack (length (ustr ''  '')) (path_stack src_state))
              (ustr ''a/.git/b/'')), length (ustr ''  '')) #
            pop_stack (length (ustr ''  '')) (path_stack src_state)
          = [(ustr ''src/a/.git/b'', 2), (ustr ''src'', 0)]"
    by (simp add: entry_path_def src_state_def char_defs path_defs)
  have "path_stack
      (process_entry ascii_tables default_config src_state (ustr ''  '') (ustr ''a/.git/b/''))
      = [(ustr ''src/a/.git/b'', 2), (ustr ''src'', 0)]"
    using directory_push_rule [OF h, of default_config "ustr ''  ''" src_state ascii_tables] w e
    by simp
  with h w d show ?thesis
    by (cases "process_entry ascii_tables default_config src_state (ustr ''  '')
        (ustr ''a/.git/b/'')") simp
qed

text \<open>
  C6 as stated fails: \<open>structure.md\<close> is not an ignored directory name, yet the directory
  line \<open>structure.md/\<close> is not pushed, and the line \<open>  child.ts\<close> below it becomes
  \<open>child.ts\<close>.
\<close>

theorem directory_withheld_counterexample:
  "line_entry (ustr ''structure.md/'') = Some ([], ustr ''structure.md/'') \<and>
   endswith_slash (ustr ''structure.md/'') \<and>
   path_name (rstrip_slash (ustr ''structure.md/'')) = ustr ''structure.md'' \<and>
   ustr ''structure.md'' \<notin> ignore_dirs default_config \<and>
   path_stack (parse_lines ascii_tables default_config [ustr ''structure.md/'']) = [] \<and>
   documented_paths_full
     (parse_lines ascii_tables default_config [ustr ''structure.md/'', ustr ''  child.ts''])
     = {ustr ''child.ts''}"
  by (simp add: parse_defs char_defs line_defs path_defs cfg_defs)

section \<open>Paths and their components\<close>

lemma split_slash_nonempty [simp]: "split_slash s \<noteq> []"
  by (induction s) (auto split: list.splits)

lemma split_slash_append: "split_slash (a @ slash # b) = split_slash a @ split_slash b"
  by (induction a) (auto split: list.splits)

lemma split_slash_noslash: "slash \<notin> set s \<Longrightarrow> split_slash s = [s]"
  by (induction s) auto

lemma as_posix_Cons: "cs \<noteq> [] \<Longrightarrow> as_posix (c # cs) = c @ slash # as_posix cs"
  by (cases cs) auto

lemma as_posix_snoc: "comps \<noteq> [] \<Longrightarrow> as_posix (comps @ [c]) = as_posix comps @ slash # c"
  by (induction comps rule: as_posix.induct) auto

lemma split_slash_as_posix:
  "comps \<noteq> [] \<Longrightarrow> \<forall>c\<in>set comps. slash \<notin> set c \<Longrightarrow> split_slash (as_posix comps) = comps"
  by (induction comps rule: as_posix.induct) (auto simp: split_slash_noslash split_slash_append)

lemma as_posix_nonempty: "comps \<noteq> [] \<Longrightarrow> list_all valid_name comps \<Longrightarrow> as_posix comps \<noteq> []"
  by (induction comps rule: as_posix.induct) (auto simp: valid_name_def)

lemma as_posix_hd:
  "comps \<noteq> [] \<Longrightarrow> list_all valid_name comps \<Longrightarrow> hd (as_posix comps) = hd (hd comps)"
  by (induction comps rule: as_posix.induct) (auto simp: valid_name_def)

lemma as_posix_last:
  "comps \<noteq> [] \<Longrightarrow> list_all valid_name comps \<Longrightarrow> last (as_posix comps) = last (last comps)"
proof (induction comps rule: as_posix.induct)
  case (3 c v va)
  then have "as_posix (v # va) \<noteq> []"
    by (intro as_posix_nonempty) auto
  with 3 show ?case by simp
qed (auto simp: valid_name_def)

lemma as_posix_not_start:
  assumes "comps \<noteq> []" and "list_all valid_name comps"
  shows "\<not> startswith_slash (as_posix comps)"
proof -
  from assms have "hd comps \<noteq> []" and "slash \<notin> set (hd comps)"
    by (cases comps; simp add: valid_name_def)+
  then have "hd (hd comps) \<noteq> slash"
    using hd_in_set by metis
  then show ?thesis
    using as_posix_hd [OF assms] by (simp add: startswith_slash_def)
qed

lemma as_posix_not_end:
  assumes "comps \<noteq> []" and "list_all valid_name comps"
  shows "\<not> endswith_slash (as_posix comps)"
proof -
  from assms have "valid_name (last comps)"
    by (simp add: list_all_iff)
  then have "last comps \<noteq> []" and "slash \<notin> set (last comps)"
    by (simp_all add: valid_name_def)
  then have "last (last comps) \<noteq> slash"
    using last_in_set by metis
  then show ?thesis
    using as_posix_last [OF assms] by (simp add: endswith_slash_def)
qed

lemma path_tail_as_posix:
  "comps \<noteq> [] \<Longrightarrow> list_all valid_name comps \<Longrightarrow> path_tail (as_posix comps) = comps"
  by (simp add: path_tail_def split_slash_as_posix valid_name_def list_all_iff filter_id_conv)

lemma path_tail_as_posix_slash:
  "comps \<noteq> [] \<Longrightarrow> list_all valid_name comps \<Longrightarrow> path_tail (as_posix comps @ [slash]) = comps"
  by (simp add: path_tail_def split_slash_append split_slash_as_posix valid_name_def list_all_iff filter_id_conv)

lemma path_root_as_posix:
  "comps \<noteq> [] \<Longrightarrow> list_all valid_name comps \<Longrightarrow> path_root (as_posix comps @ s) = []"
  using as_posix_not_start [of comps] as_posix_nonempty [of comps]
  by (auto simp: path_root_def startswith_slash_def)

lemma path_parts_as_posix:
  "comps \<noteq> [] \<Longrightarrow> list_all valid_name comps \<Longrightarrow> path_parts (as_posix comps) = comps"
  using path_root_as_posix [of comps "[]"] by (simp add: path_parts_def path_tail_as_posix)

lemma path_parts_as_posix_slash:
  "comps \<noteq> [] \<Longrightarrow> list_all valid_name comps \<Longrightarrow> path_parts (as_posix comps @ [slash]) = comps"
  using path_root_as_posix [of comps "[slash]"] by (simp add: path_parts_def path_tail_as_posix_slash)

lemma path_name_as_posix:
  "comps \<noteq> [] \<Longrightarrow> list_all valid_name comps \<Longrightarrow> path_name (as_posix comps) = last comps"
  by (cases comps) (auto simp: path_name_def path_tail_as_posix simp del: as_posix.simps)

lemma path_name_as_posix_slash:
  "comps \<noteq> [] \<Longrightarrow> list_all valid_name comps \<Longrightarrow> path_name (as_posix comps @ [slash]) = last comps"
  by (cases comps) (auto simp: path_name_def path_tail_as_posix_slash simp del: as_posix.simps)

lemma rstrip_slash_snoc: "\<not> endswith_slash s \<Longrightarrow> rstrip_slash (s @ [slash]) = s"
  by (cases s rule: rev_cases) (auto simp: rstrip_slash_def endswith_slash_def)

lemma rstrip_slash_id: "\<not> endswith_slash s \<Longrightarrow> rstrip_slash s = s"
  by (cases s rule: rev_cases) (auto simp: rstrip_slash_def endswith_slash_def)

section \<open>What the scanner returns\<close>

lemma as_posix_dot: "list_all valid_name rel \<Longrightarrow> as_posix rel = ustr ''.'' \<longleftrightarrow> rel = []"
proof (induction rel rule: as_posix.induct)
  case (3 c v va)
  then have "c \<noteq> []" by (simp add: valid_name_def)
  then have "c @ [slash] @ as_posix (v # va) \<noteq> [x]" for x
    by (cases c) auto
  then show ?case by (simp add: ustr_def)
qed (auto simp: valid_name_def)

lemma filenames_set: "set (filenames es) = {n. File n \<in> set es}"
  by (induction es rule: filenames.induct) auto

lemma walk_set:
  "p \<in> set (walk uni cfg rel entries) \<longleftrightarrow>
     p \<in> set (visit_dir uni cfg rel entries) \<or>
     (\<exists>d sub. Dir d sub \<in> set entries \<and> d \<notin> ignore_dirs cfg \<and>
        p \<in> set (walk uni cfg (rel @ [d]) sub))"
proof -
  have "(\<exists>e\<in>set entries. p \<in> set (case e of Dir d sub \<Rightarrow>
            if d \<in> ignore_dirs cfg then [] else walk uni cfg (rel @ [d]) sub
          | File n \<Rightarrow> [] | Unwalked n \<Rightarrow> []))
     \<longleftrightarrow> (\<exists>d sub. Dir d sub \<in> set entries \<and> d \<notin> ignore_dirs cfg \<and>
        p \<in> set (walk uni cfg (rel @ [d]) sub))" (is "?l \<longleftrightarrow> ?r")
  proof
    assume ?l
    then obtain e where "e \<in> set entries" and "p \<in> set (case e of Dir d sub \<Rightarrow>
            if d \<in> ignore_dirs cfg then [] else walk uni cfg (rel @ [d]) sub
          | File n \<Rightarrow> [] | Unwalked n \<Rightarrow> [])"
      by blast
    then show ?r
      by (cases e) (auto split: if_splits)
  next
    assume ?r
    then obtain d sub where "Dir d sub \<in> set entries" "d \<notin> ignore_dirs cfg"
        "p \<in> set (walk uni cfg (rel @ [d]) sub)"
      by blast
    then show ?l
      by (intro bexI [of _ "Dir d sub"]) simp_all
  qed
  then show ?thesis
    by (subst walk.simps) simp
qed

lemma visit_dir_set:
  assumes "list_all valid_name rel"
  shows "set (visit_dir uni cfg rel entries) =
     (if rel = [] then {} else {as_posix rel @ [slash]}) \<union>
     {as_posix (rel @ [n]) | n. File n \<in> set entries \<and> file_kept uni cfg rel n}"
proof -
  have d: "as_posix rel = ustr ''.'' \<longleftrightarrow> rel = []"
    using assms by (rule as_posix_dot)
  show ?thesis
    by (cases "rel = []") (auto simp: visit_dir_def d filenames_set)
qed

lemma walk_paths:
  assumes "list_all valid_name rel" and "list_all wf_entry entries"
    and "p \<in> set (walk uni cfg rel entries)"
  shows "(rel \<noteq> [] \<and> p = as_posix rel @ [slash]) \<or>
         (\<exists>comps. scanned_file uni cfg rel entries comps \<and> p = as_posix (rel @ comps)) \<or>
         (\<exists>comps. scanned_dir cfg entries comps \<and> p = as_posix (rel @ comps) @ [slash])"
  using assms
proof (induction uni cfg rel entries arbitrary: p rule: walk.induct)
  case (1 uni cfg rel entries)
  from "1.prems"(3) consider
      (here) "p \<in> set (visit_dir uni cfg rel entries)"
    | (below) d sub where "Dir d sub \<in> set entries" "d \<notin> ignore_dirs cfg"
        "p \<in> set (walk uni cfg (rel @ [d]) sub)"
    by (auto simp: walk_set [of p uni cfg rel entries])
  then show ?case
  proof cases
    case here
    then consider "rel \<noteq> []" "p = as_posix rel @ [slash]"
      | n where "File n \<in> set entries" "file_kept uni cfg rel n" "p = as_posix (rel @ [n])"
      using visit_dir_set [OF "1.prems"(1), of uni cfg entries] by (auto split: if_splits)
    then show ?thesis
    proof cases
      case 1
      then show ?thesis by simp
    next
      case 2
      from 2(1) "1.prems"(2) have vn: "valid_name n"
        by (auto simp: list_all_iff)
      have "file_at (File n) [n]"
        by simp
      with 2(1) have "list_ex (\<lambda>e. file_at e [n]) entries"
        unfolding list_ex_iff by blast
      with vn have "scanned_file uni cfg rel entries [n]"
        using 2(2) by (simp add: scanned_file_def)
      with 2(3) show ?thesis by blast
    qed
  next
    case below
    from below(1) "1.prems"(2) have vd: "valid_name d" and wsub: "list_all wf_entry sub"
      by (auto simp: list_all_iff)
    have vrel: "list_all valid_name (rel @ [d])"
      using "1.prems"(1) vd by simp
    from "1.IH" [OF below(1) refl below(2) vrel wsub below(3)]
    consider "p = as_posix (rel @ [d]) @ [slash]"
      | comps where "scanned_file uni cfg (rel @ [d]) sub comps" "p = as_posix ((rel @ [d]) @ comps)"
      | comps where "scanned_dir cfg sub comps" "p = as_posix ((rel @ [d]) @ comps) @ [slash]"
      by blast
    then show ?thesis
    proof cases
      case 1
      have "dir_at (Dir d sub) [d]"
        by simp
      then have "list_ex (\<lambda>e. dir_at e [d]) entries"
        using below(1) unfolding list_ex_iff by blast
      then have "scanned_dir cfg entries [d]"
        using below(2) vd by (simp add: scanned_dir_def)
      with 1 show ?thesis by blast
    next
      case 2
      from 2(1) obtain c cs where cc: "comps = c # cs"
        by (cases comps) (auto simp: scanned_file_def)
      have "file_at (Dir d sub) (d # comps)"
        using 2(1) unfolding cc by (simp add: scanned_file_def)
      then have "list_ex (\<lambda>e. file_at e (d # comps)) entries"
        using below(1) unfolding list_ex_iff by blast
      then have "scanned_file uni cfg rel entries (d # comps)"
        using 2(1) below(2) vd unfolding cc
        by (simp add: scanned_file_def)
      with 2(2) show ?thesis by auto
    next
      case 3
      from 3(1) obtain c cs where cc: "comps = c # cs"
        by (cases comps) (auto simp: scanned_dir_def)
      have "dir_at (Dir d sub) (d # comps)"
        using 3(1) unfolding cc by (simp add: scanned_dir_def)
      then have "list_ex (\<lambda>e. dir_at e (d # comps)) entries"
        using below(1) unfolding list_ex_iff by blast
      then have "scanned_dir cfg entries (d # comps)"
        using 3(1) below(2) vd unfolding cc
        by (simp add: scanned_dir_def)
      with 3(2) show ?thesis by auto
    qed
  qed
qed

lemma scan_sample:
  "scan_project_files_for_verify uni default_config sample_root =
     {ustr ''README.md'', ustr ''src/'', ustr ''src/main.ts''}"
  by (simp add: scan_project_files_for_verify_def sample_root_def walk.simps visit_dir_def
      file_kept_def IGNORE_PATTERNS_def match_dotstar_lit_def char_defs path_defs cfg_defs)

lemma result_final_keep:
  assumes "extract_documented_paths uni cfg md_file = Inr (printed, Some result)" and "q \<in> result"
  shows "final_keep uni cfg q"
  using assms
  by (auto simp: extract_documented_paths_def final_documented_paths_def
      split: file_read.splits option.splits)

lemma scan_paths:
  assumes "list_all wf_entry root" and "p \<in> scan_project_files_for_verify uni cfg root"
  shows "(\<exists>comps. scanned_file uni cfg [] root comps \<and> p = as_posix comps) \<or>
         (\<exists>comps. scanned_dir cfg root comps \<and> p = as_posix comps @ [slash])"
  using walk_paths [of "[]" root p uni cfg] assms
  by (simp add: scan_project_files_for_verify_def)

text \<open>
  C8. In a directory tree with well-formed names, every entry of the scanner's result is the
  components of a directory or of a file of the tree, joined by single slashes: a relative
  path without empty, \<open>.\<close> or \<open>..\<close> components. A directory entry is that path followed
  by exactly one slash, a file entry has no trailing slash, and the root itself (no
  component, \<open>.\<close> or \<open>./\<close>) is never an entry.
\<close>

theorem scan_entry_shape:
  assumes "list_all wf_entry root" and "p \<in> scan_project_files_for_verify uni cfg root"
  shows "\<exists>comps. comps \<noteq> [] \<and> list_all valid_name comps \<and>
           ((list_ex (\<lambda>e. dir_at e comps) root \<and> p = as_posix comps @ [slash] \<and>
             split_slash p = comps @ [[]] \<and> \<not> endswith_slash (as_posix comps)) \<or>
            (list_ex (\<lambda>e. file_at e comps) root \<and> p = as_posix comps \<and>
             split_slash p = comps \<and> \<not> endswith_slash p)) \<and>
           \<not> startswith_slash p \<and> p \<noteq> ustr ''.'' \<and> p \<noteq> ustr ''./''"
proof -
  from scan_paths [OF assms] consider
      (a_file) comps where "scanned_file uni cfg [] root comps" "p = as_posix comps"
    | (a_dir) comps where "scanned_dir cfg root comps" "p = as_posix comps @ [slash]"
    by blast
  then show ?thesis
  proof cases
    case a_file
    then have c: "comps \<noteq> []" "list_all valid_name comps" "list_ex (\<lambda>e. file_at e comps) root"
      by (simp_all add: scanned_file_def)
    have ns: "\<forall>c\<in>set comps. slash \<notin> set c"
      using c(2) by (simp add: list_all_iff valid_name_def)
    have "split_slash p = comps"
      using a_file(2) split_slash_as_posix [OF c(1) ns] by simp
    moreover have "\<not> endswith_slash p" "\<not> startswith_slash p"
      using a_file(2) as_posix_not_end [OF c(1,2)] as_posix_not_start [OF c(1,2)] by simp_all
    moreover have "p \<noteq> ustr ''.''"
      using a_file(2) as_posix_dot [OF c(2)] c(1) by simp
    moreover have "p \<noteq> ustr ''./''"
      using \<open>\<not> endswith_slash p\<close> by (auto simp: endswith_slash_def ustr_def slash_def)
    ultimately show ?thesis
      using c a_file(2) by blast
  next
    case a_dir
    then have c: "comps \<noteq> []" "list_all valid_name comps" "list_ex (\<lambda>e. dir_at e comps) root"
      by (simp_all add: scanned_dir_def)
    have ns: "\<forall>c\<in>set comps. slash \<notin> set c"
      using c(2) by (simp add: list_all_iff valid_name_def)
    have "split_slash p = comps @ [[]]"
      using a_dir(2) split_slash_as_posix [OF c(1) ns] by (simp add: split_slash_append)
    moreover have ne: "\<not> endswith_slash (as_posix comps)"
      using as_posix_not_end [OF c(1,2)] .
    moreover have "\<not> startswith_slash p"
      using a_dir(2) as_posix_not_start [OF c(1,2)] as_posix_nonempty [OF c(1,2)]
      by (simp add: startswith_slash_def)
    moreover have "p \<noteq> ustr ''.''"
      using a_dir(2) by (auto simp: ustr_def slash_def)
    moreover have "p \<noteq> ustr ''./''"
      using a_dir(2) as_posix_dot [OF c(2)] c(1) by (auto simp: ustr_def slash_def)
    ultimately show ?thesis
      using c a_dir(2) by blast
  qed
qed

theorem scan_entry_shape_witness:
  "list_all wf_entry sample_root \<and>
   ustr ''src/'' \<in> scan_project_files_for_verify ascii_tables default_config sample_root \<and>
   (\<exists>comps. comps \<noteq> [] \<and> list_all valid_name comps \<and>
           ((list_ex (\<lambda>e. dir_at e comps) sample_root \<and> ustr ''src/'' = as_posix comps @ [slash] \<and>
             split_slash (ustr ''src/'') = comps @ [[]] \<and> \<not> endswith_slash (as_posix comps)) \<or>
            (list_ex (\<lambda>e. file_at e comps) sample_root \<and> ustr ''src/'' = as_posix comps \<and>
             split_slash (ustr ''src/'') = comps \<and> \<not> endswith_slash (ustr ''src/''))) \<and>
           \<not> startswith_slash (ustr ''src/'') \<and> ustr ''src/'' \<noteq> ustr ''.'' \<and>
           ustr ''src/'' \<noteq> ustr ''./'')"
proof -
  have w: "list_all wf_entry sample_root"
    by (simp add: sample_root_def valid_name_def char_defs)
  have m: "ustr ''src/'' \<in> scan_project_files_for_verify ascii_tables default_config sample_root"
    by (simp add: scan_sample)
  show ?thesis
    using w m scan_entry_shape [OF w m] by blast
qed

section \<open>Ignored names in the two result sets\<close>

lemma scanned_dir_parts:
  assumes "scanned_dir cfg root comps"
  shows "\<forall>part\<in>set (dir_parts (as_posix comps @ [slash])). part \<notin> ignore_dirs cfg"
proof -
  from assms have c: "comps \<noteq> []" "list_all valid_name comps" "\<forall>d\<in>set comps. d \<notin> ignore_dirs cfg"
    by (simp_all add: scanned_dir_def)
  have "endswith_slash (as_posix comps @ [slash])"
    by (simp add: endswith_slash_def)
  then show ?thesis
    using c(3) by (simp add: dir_parts_def path_parts_as_posix_slash [OF c(1,2)])
qed

lemma scanned_file_parts:
  assumes "scanned_file uni cfg [] root comps"
  shows "\<forall>part\<in>set (dir_parts (as_posix comps)). part \<notin> ignore_dirs cfg"
proof -
  from assms have c: "comps \<noteq> []" "list_all valid_name comps"
      "\<forall>d\<in>set (butlast comps). d \<notin> ignore_dirs cfg"
    by (simp_all add: scanned_file_def)
  show ?thesis
    using c(3) as_posix_not_end [OF c(1,2)]
    by (simp add: dir_parts_def path_parts_as_posix [OF c(1,2)])
qed

text \<open>
  C1, as amended. In a directory tree with well-formed names, no entry of the scanner's
  result has an ignored directory name among the
  components that name directories (every component of a directory entry, every component
  but the file name of a file entry), and no entry of the parser's result has an ignored
  directory name among its components at all.
\<close>

theorem no_ignored_directory_component:
  "(list_all wf_entry root \<longrightarrow> p \<in> scan_project_files_for_verify uni cfg root \<longrightarrow>
      (\<forall>part\<in>set (dir_parts p). part \<notin> ignore_dirs cfg)) \<and>
   (extract_documented_paths uni cfg md_file = Inr (printed, Some result) \<longrightarrow> q \<in> result \<longrightarrow>
      (\<forall>part\<in>set (path_parts q). part \<notin> ignore_dirs cfg))"
proof (intro conjI impI)
  assume "list_all wf_entry root" and "p \<in> scan_project_files_for_verify uni cfg root"
  from scan_paths [OF this] show "\<forall>part\<in>set (dir_parts p). part \<notin> ignore_dirs cfg"
    using scanned_dir_parts scanned_file_parts by blast
next
  assume "extract_documented_paths uni cfg md_file = Inr (printed, Some result)" and "q \<in> result"
  then have "final_keep uni cfg q"
    by (rule result_final_keep)
  then show "\<forall>part\<in>set (path_parts q). part \<notin> ignore_dirs cfg"
    by (simp add: final_keep_def list_ex_iff)
qed

lemma extract_nested_doc:
  "extract_documented_paths uni default_config (Content nested_doc) =
     Inr ([], Some {ustr ''debug.log'', ustr ''src/main.ts'', ustr ''src/''})"
proof -
  have b: "backquote \<notin> set (ustr ''src/'' @ 10 # ustr ''  main.ts'' @ 10 # ustr ''debug.log'' @ [10])"
    by (simp add: char_defs)
  have "code_block_match uni nested_doc = Some (ustr ''src/'' @ 10 # ustr ''  main.ts'' @ 10 # ustr ''debug.log'' @ [10])"
    using until_fence_append [of "[]"] until_fence_append [OF b, of "[]"]
    by (simp add: code_block_match_def nested_doc_def skip_lang_newline)
  moreover have "splitlines (py_strip (ustr ''src/'' @ 10 # ustr ''  main.ts'' @ 10 # ustr ''debug.log'' @ [10]))
      = [ustr ''src/'', ustr ''  main.ts'', ustr ''debug.log'']"
    by (simp add: py_strip_def is_space_def ustr_def splitlines.simps is_linebreak_def)
  moreover have "documented_paths_full (parse_lines uni default_config [ustr ''src/'', ustr ''  main.ts'', ustr ''debug.log''])
      = {ustr ''debug.log'', ustr ''src/main.ts'', ustr ''src/''}"
    by (simp add: parse_defs char_defs line_defs path_defs cfg_defs)
  moreover have "final_documented_paths uni default_config {ustr ''debug.log'', ustr ''src/main.ts'', ustr ''src/''}
      = {ustr ''debug.log'', ustr ''src/main.ts'', ustr ''src/''}"
    by (simp add: final_documented_paths_insert final_documented_paths_empty final_keep_def
        char_defs path_defs cfg_defs)
  ultimately show ?thesis
    by (simp add: extract_documented_paths_def)
qed

theorem no_ignored_directory_component_witness:
  "list_all wf_entry sample_root \<and>
   ustr ''src/main.ts'' \<in> scan_project_files_for_verify ascii_tables default_config sample_root \<and>
   set (dir_parts (ustr ''src/main.ts'')) \<inter> ignore_dirs default_config = {} \<and>
   extract_documented_paths ascii_tables default_config (Content nested_doc) =
     Inr ([], Some {ustr ''debug.log'', ustr ''src/main.ts'', ustr ''src/''}) \<and>
   ustr ''src/main.ts'' \<in> {ustr ''debug.log'', ustr ''src/main.ts'', ustr ''src/''} \<and>
   set (path_parts (ustr ''src/main.ts'')) \<inter> ignore_dirs default_config = {}"
proof -
  have w: "list_all wf_entry sample_root"
    by (simp add: sample_root_def valid_name_def char_defs)
  have m: "ustr ''src/main.ts'' \<in> scan_project_files_for_verify ascii_tables default_config sample_root"
    by (simp add: scan_sample)
  have e: "extract_documented_paths ascii_tables default_config (Content nested_doc) =
     Inr ([], Some {ustr ''debug.log'', ustr ''src/main.ts'', ustr ''src/''})"
    by (rule extract_nested_doc)
  have q: "ustr ''src/main.ts'' \<in> {ustr ''debug.log'', ustr ''src/main.ts'', ustr ''src/''}"
    by simp
  show ?thesis
    using w m e q
      no_ignored_directory_component [of sample_root "ustr ''src/main.ts''" ascii_tables
        default_config "Content nested_doc" "[]"
        "{ustr ''debug.log'', ustr ''src/main.ts'', ustr ''src/''}" "ustr ''src/main.ts''"]
    by blast
qed

text \<open>
  C1 as stated fails for the scanner: a file (not a directory) named \<open>.git\<close>, as a git
  worktree or submodule has one, is an entry of the result, and its component \<open>.git\<close> is
  an ignored directory name.
\<close>

theorem ignored_name_file_counterexample:
  "list_all wf_entry [File (ustr ''.git'')] \<and>
   ustr ''.git'' \<in> scan_project_files_for_verify ascii_tables default_config [File (ustr ''.git'')] \<and>
   ustr ''.git'' \<in> set (path_parts (ustr ''.git'')) \<and>
   ustr ''.git'' \<in> ignore_dirs default_config"
  by (simp add: scan_project_files_for_verify_def walk.simps visit_dir_def valid_name_def
      file_kept_def IGNORE_PATTERNS_def match_dotstar_lit_def char_defs path_defs cfg_defs)

lemma path_suffix_as_posix:
  "comps \<noteq> [] \<Longrightarrow> list_all valid_name comps \<Longrightarrow> path_suffix (as_posix comps) = name_suffix (last comps)"
  by (simp add: path_suffix_def path_name_as_posix)

text \<open>
  C5, as amended. Every file path in the result of the parser passes the rules of the
  scanner other than the regex patterns: no directory above the file has an ignored
  directory name, the file name is not an ignored file name and its lower-cased suffix is
  not an ignored extension. The patterns are not applied by the parser.
\<close>

theorem parser_applies_name_rules:
  assumes "extract_documented_paths uni cfg md_file = Inr (printed, Some result)"
    and "comps \<noteq> []" and "list_all valid_name comps" and "as_posix comps \<in> result"
  shows "scanner_keeps uni (cfg\<lparr>ignore_patterns := []\<rparr>) comps"
proof -
  have k: "final_keep uni cfg (as_posix comps)"
    using assms(1,4) by (rule result_final_keep)
  have ne: "\<not> endswith_slash (as_posix comps)"
    using assms(2,3) by (rule as_posix_not_end)
  from k ne have "last comps \<notin> ignore_files cfg"
    and "\<forall>part\<in>set comps. part \<notin> ignore_dirs cfg"
    and "py_lower uni (name_suffix (last comps)) \<notin> ignore_extensions cfg"
    by (simp_all add: final_keep_def list_ex_iff path_name_as_posix [OF assms(2,3)]
        path_parts_as_posix [OF assms(2,3)] path_suffix_as_posix [OF assms(2,3)])
  then show ?thesis
    by (auto simp: scanner_keeps_def file_kept_def dest: in_set_butlastD)
qed

theorem parser_applies_name_rules_witness:
  "extract_documented_paths ascii_tables default_config (Content nested_doc) =
     Inr ([], Some {ustr ''debug.log'', ustr ''src/main.ts'', ustr ''src/''}) \<and>
   [ustr ''src'', ustr ''main.ts''] \<noteq> [] \<and>
   list_all valid_name [ustr ''src'', ustr ''main.ts''] \<and>
   as_posix [ustr ''src'', ustr ''main.ts''] \<in> {ustr ''debug.log'', ustr ''src/main.ts'', ustr ''src/''} \<and>
   scanner_keeps ascii_tables (default_config\<lparr>ignore_patterns := []\<rparr>) [ustr ''src'', ustr ''main.ts'']"
proof -
  have e: "extract_documented_paths ascii_tables default_config (Content nested_doc) =
     Inr ([], Some {ustr ''debug.log'', ustr ''src/main.ts'', ustr ''src/''})"
    by (rule extract_nested_doc)
  have n: "[ustr ''src'', ustr ''main.ts''] \<noteq> []"
    by simp
  have v: "list_all valid_name [ustr ''src'', ustr ''main.ts'']"
    by (simp add: valid_name_def char_defs)
  have m: "as_posix [ustr ''src'', ustr ''main.ts''] \<in> {ustr ''debug.log'', ustr ''src/main.ts'', ustr ''src/''}"
    by (simp add: char_defs)
  show ?thesis
    using e n v m parser_applies_name_rules [OF e n v m] by blast
qed

text \<open>
  C5 as stated fails: the documented file \<open>debug.log\<close> matches the ignored pattern
  \<open>.*\.log$\<close>, so the scanner's rules exclude it, and it is in the result of the parser.
\<close>

theorem pattern_not_applied_counterexample:
  "extract_documented_paths ascii_tables default_config (Content nested_doc) =
     Inr ([], Some {ustr ''debug.log'', ustr ''src/main.ts'', ustr ''src/''}) \<and>
   as_posix [ustr ''debug.log''] \<in> {ustr ''debug.log'', ustr ''src/main.ts'', ustr ''src/''} \<and>
   list_all valid_name [ustr ''debug.log''] \<and>
   match_dotstar_lit (ustr ''.log'') (as_posix [ustr ''debug.log'']) \<and>
   \<not> scanner_keeps ascii_tables default_config [ustr ''debug.log'']"
proof -
  have "match_dotstar_lit (ustr ''.log'') (as_posix [ustr ''debug.log''])"
    by (simp add: match_dotstar_lit_def char_defs)
  moreover from this have "\<not> scanner_keeps ascii_tables default_config [ustr ''debug.log'']"
    by (simp add: scanner_keeps_def file_kept_def default_config_def IGNORE_PATTERNS_def)
  moreover have "list_all valid_name [ustr ''debug.log'']"
    by (simp add: valid_name_def char_defs)
  ultimately show ?thesis
    using extract_nested_doc [of ascii_tables] by simp
qed

section \<open>Failure of the parse step\<close>

lemma until_fence_Some: "until_fence s = Some (a, c) \<Longrightarrow> s = a @ fence @ c"
proof (induction s arbitrary: a)
  case Nil
  then show ?case by simp
next
  case (Cons x s)
  show ?case
  proof (cases "take 3 (x # s) = [backquote, backquote, backquote]")
    case True
    with Cons.prems have ac: "a = []" "c = drop 2 s"
      by simp_all
    have "x # s = take 3 (x # s) @ drop 3 (x # s)"
      by (rule append_take_drop_id [symmetric])
    also have "drop 3 (x # s) = drop 2 s"
      by (simp add: drop_Cons')
    finally have "x # s = take 3 (x # s) @ drop 2 s" .
    then show ?thesis
      unfolding True ac fence_def by simp
  next
    case False
    with Cons.prems obtain a' where "until_fence s = Some (a', c)" "a = x # a'"
      by (auto split: option.splits)
    with Cons.IH show ?thesis by simp
  qed
qed

lemma until_fence_first:
  "\<exists>a' r. until_fence (a @ fence @ c) = Some (a', r) \<and> length a' \<le> length a"
  by (induction a) (auto simp: fence_def)

lemma until_fence_prefix:
  "backquote \<notin> set w \<Longrightarrow>
   until_fence (w @ t) = (case until_fence t of None \<Rightarrow> None | Some (a, c) \<Rightarrow> Some (w @ a, c))"
  by (induction w) (auto split: option.splits)

lemma skip_lang_suffix: "\<exists>w. rest = w @ skip_lang uni rest \<and> backquote \<notin> set w"
proof (cases "dropWhile (is_word uni) rest")
  case Nil
  then have "skip_lang uni rest = rest"
    by (simp only: skip_lang_def list.case)
  then show ?thesis
    by (intro exI [of _ "[]"]) simp
next
  case (Cons c r)
  show ?thesis
  proof (cases "c = 10")
    case True
    have "rest = takeWhile (is_word uni) rest @ dropWhile (is_word uni) rest"
      by simp
    then have "rest = (takeWhile (is_word uni) rest @ [10]) @ r"
      using Cons True by simp
    moreover have "backquote \<notin> set (takeWhile (is_word uni) rest @ [10])"
      by (auto simp: backquote_def is_word_def dest!: set_takeWhileD)
    moreover have "skip_lang uni rest = r"
      using Cons True by (simp add: skip_lang_def)
    ultimately show ?thesis by metis
  next
    case False
    with Cons have "skip_lang uni rest = rest"
      by (simp add: skip_lang_def)
    then show ?thesis
      by (intro exI [of _ "[]"]) simp
  qed
qed

lemma code_block_match_None:
  "code_block_match uni content = None \<longleftrightarrow> \<not> (\<exists>a b c. content = a @ fence @ b @ fence @ c)"
proof
  assume n: "code_block_match uni content = None"
  show "\<not> (\<exists>a b c. content = a @ fence @ b @ fence @ c)"
  proof
    assume "\<exists>a b c. content = a @ fence @ b @ fence @ c"
    then obtain a b c where eq: "content = a @ fence @ b @ fence @ c"
      by blast
    obtain a' r where u: "until_fence content = Some (a', r)" and le: "length a' \<le> length a"
      using until_fence_first [of a "b @ fence @ c"] eq by auto
    from u have "content = a' @ fence @ r"
      by (rule until_fence_Some)
    then have "r = drop (length a' + 3) content"
      by (simp add: fence_def)
    also have "content = (a @ fence @ b) @ (fence @ c)"
      using eq by simp
    also have "drop (length a' + 3) ((a @ fence @ b) @ (fence @ c)) =
        drop (length a' + 3) (a @ fence @ b) @ fence @ c"
    proof -
      have "length a' + 3 \<le> length (a @ fence @ b)"
        using le by (simp add: fence_def)
      then show ?thesis by simp
    qed
    finally have r: "r = drop (length a' + 3) (a @ fence @ b) @ fence @ c" .
    obtain w where w: "r = w @ skip_lang uni r" "backquote \<notin> set w"
      using skip_lang_suffix by blast
    have "until_fence r \<noteq> None"
      using until_fence_first [of "drop (length a' + 3) (a @ fence @ b)" c] r by auto
    then have "until_fence (skip_lang uni r) \<noteq> None"
      using until_fence_prefix [OF w(2), of "skip_lang uni r"] w(1)
      by (auto split: option.splits)
    with u n show False
      by (auto simp: code_block_match_def split: option.splits)
  qed
next
  assume no: "\<not> (\<exists>a b c. content = a @ fence @ b @ fence @ c)"
  show "code_block_match uni content = None"
  proof (rule ccontr)
    assume "code_block_match uni content \<noteq> None"
    then obtain a r body after where u: "until_fence content = Some (a, r)"
      and v: "until_fence (skip_lang uni r) = Some (body, after)"
      by (auto simp: code_block_match_def split: option.splits)
    obtain w where w: "r = w @ skip_lang uni r"
      using skip_lang_suffix by blast
    from u have "content = a @ fence @ r" by (rule until_fence_Some)
    moreover from v have "skip_lang uni r = body @ fence @ after" by (rule until_fence_Some)
    ultimately have "content = a @ fence @ (w @ body) @ fence @ after"
      using w by simp
    with no show False by blast
  qed
qed

text \<open>
  C7, as amended. \<open>extract_documented_paths\<close> returns the failure value \<open>None\<close>, after
  printing a diagnostic, in exactly two cases: the documentation file does not exist, or
  its text holds no fenced code block (no two non-overlapping occurrences of \<open>```\<close>). In
  both the driver prints that it could not verify and ends without an exception. A text
  with a fenced code block gives a result set. Any other error raised while the file is
  opened, read or decoded is not caught: it leaves the function and the driver.
\<close>

theorem extract_failure_cases:
  "(extract_documented_paths uni cfg md_file = Inr (printed, None) \<longleftrightarrow>
      md_file = FileNotFound \<and> printed = [ErrorNotFound] \<or>
      (\<exists>content. md_file = Content content \<and> printed = [ErrorNoCodeBlock] \<and>
         \<not> (\<exists>a b c. content = a @ fence @ b @ fence @ c))) \<and>
   (extract_documented_paths uni cfg md_file = Inr (printed, None) \<longrightarrow>
      verify_mode uni cfg root md_file =
        Inr ([Banner, FoundActual (card (scan_project_files_for_verify uni cfg root)),
              ParsingDocumentation] @ printed @ [CouldNotVerify])) \<and>
   ((\<exists>a b c. md_file = Content (a @ fence @ b @ fence @ c)) \<longrightarrow>
      (\<exists>result. extract_documented_paths uni cfg md_file = Inr ([], Some result))) \<and>
   (md_file = ReadRaises e \<longrightarrow>
      extract_documented_paths uni cfg md_file = Inl e \<and>
      verify_mode uni cfg root md_file = Inl e)"
proof (intro conjI)
  show "extract_documented_paths uni cfg md_file = Inr (printed, None) \<longleftrightarrow>
      md_file = FileNotFound \<and> printed = [ErrorNotFound] \<or>
      (\<exists>content. md_file = Content content \<and> printed = [ErrorNoCodeBlock] \<and>
         \<not> (\<exists>a b c. content = a @ fence @ b @ fence @ c))"
  proof (cases md_file)
    case FileNotFound
    then show ?thesis by (auto simp: extract_documented_paths_def)
  next
    case (ReadRaises e)
    then show ?thesis by (simp add: extract_documented_paths_def)
  next
    case (Content content)
    show ?thesis
      using code_block_match_None [of uni content]
      by (cases "code_block_match uni content") (auto simp: Content extract_documented_paths_def)
  qed
next
  show "extract_documented_paths uni cfg md_file = Inr (printed, None) \<longrightarrow>
      verify_mode uni cfg root md_file =
        Inr ([Banner, FoundActual (card (scan_project_files_for_verify uni cfg root)),
              ParsingDocumentation] @ printed @ [CouldNotVerify])"
    by (simp add: verify_mode_def Let_def)
next
  show "(\<exists>a b c. md_file = Content (a @ fence @ b @ fence @ c)) \<longrightarrow>
      (\<exists>result. extract_documented_paths uni cfg md_file = Inr ([], Some result))"
  proof
    assume "\<exists>a b c. md_file = Content (a @ fence @ b @ fence @ c)"
    then obtain a b c where m: "md_file = Content (a @ fence @ b @ fence @ c)"
      by blast
    have "code_block_match uni (a @ fence @ b @ fence @ c) \<noteq> None"
      using code_block_match_None [of uni "a @ fence @ b @ fence @ c"] by blast
    then show "\<exists>result. extract_documented_paths uni cfg md_file = Inr ([], Some result)"
      by (auto simp: m extract_documented_paths_def)
  qed
next
  show "md_file = ReadRaises e \<longrightarrow>
      extract_documented_paths uni cfg md_file = Inl e \<and>
      verify_mode uni cfg root md_file = Inl e"
    by (simp add: verify_mode_def extract_documented_paths_def Let_def)
qed

theorem extract_failure_cases_witness:
  "extract_documented_paths ascii_tables default_config FileNotFound = Inr ([ErrorNotFound], None) \<and>
   verify_mode ascii_tables default_config sample_root FileNotFound =
     Inr [Banner, FoundActual 3, ParsingDocumentation, ErrorNotFound, CouldNotVerify] \<and>
   extract_documented_paths ascii_tables default_config (Content (ustr ''no diagram here''))
     = Inr ([ErrorNoCodeBlock], None)"
proof -
  have a: "extract_documented_paths ascii_tables default_config FileNotFound
      = Inr ([ErrorNotFound], None)"
    by (simp add: extract_documented_paths_def)
  have c: "card (scan_project_files_for_verify ascii_tables default_config sample_root) = 3"
    by (simp add: scan_sample char_defs)
  have n: "until_fence (ustr ''no diagram here'') = None"
    by (simp add: char_defs)
  have b: "extract_documented_paths ascii_tables default_config (Content (ustr ''no diagram here''))
     = Inr ([ErrorNoCodeBlock], None)"
    by (simp add: extract_documented_paths_def code_block_match_def n)
  show ?thesis
    using a b c
      extract_failure_cases [of ascii_tables default_config FileNotFound "[ErrorNotFound]"
        sample_root PermissionError]
    by simp
qed

text \<open>
  C7 as stated fails: a documentation file that is not valid UTF-8 is neither missing nor a
  text without a code block, and no result set is returned: the exception escapes.
\<close>

theorem uncaught_read_error_counterexample:
  "ReadRaises UnicodeDecodeError \<noteq> FileNotFound \<and>
   (case ReadRaises UnicodeDecodeError of Content content \<Rightarrow> True | _ \<Rightarrow> False) = False \<and>
   extract_documented_paths ascii_tables default_config (ReadRaises UnicodeDecodeError)
     = Inl UnicodeDecodeError \<and>
   verify_mode ascii_tables default_config sample_root (ReadRaises UnicodeDecodeError)
     = Inl UnicodeDecodeError"
  by (simp add: verify_mode_def extract_documented_paths_def Let_def)

section \<open>The round trip\<close>

text \<open>
  Strings are ordered as \<open>sorted\<close> orders them, by code points: what lies between a
  string and one of its extensions begins with that string.
\<close>

lemma lex_between:
  fixes P :: "nat list"
  shows "take (length P) p = P \<Longrightarrow> P \<le> q \<Longrightarrow> q \<le> p \<Longrightarrow> take (length P) q = P"
proof (induction P arbitrary: p q)
  case Nil
  then show ?case by simp
next
  case (Cons x P')
  from Cons.prems(1) obtain p' where p: "p = x # p'" and t: "take (length P') p' = P'"
    by (cases p) auto
  from Cons.prems(2) obtain y q' where q: "q = y # q'"
    by (cases q) auto
  from Cons.prems(2,3) have "y = x" and "P' \<le> q'" and "q' \<le> p'"
    unfolding p q by auto
  with Cons.IH [OF t] show ?case
    by (simp add: q)
qed

lemma less_append:
  fixes P :: "nat list"
  shows "P < P @ y # ys"
  by (induction P) auto

lemma sorted_before:
  fixes P :: "nat list"
  assumes "sorted (xs @ q # p # ps)" and "P \<in> set (xs @ q # p # ps)" and "P < p"
  shows "P \<le> q"
  using assms by (auto simp: sorted_append)


lemma plain_name_facts:
  assumes "plain_name n"
  shows "n \<noteq> []" "slash \<notin> set n" "hash \<notin> set n" "star \<notin> set n" "until_fence n = None"
    "\<forall>c\<in>set n. \<not> is_linebreak c" "\<not> is_decoration (hd n)" "\<not> is_space (last n)"
    "n \<noteq> ustr ''.''" "valid_name n" "\<not> is_space (hd n)"
  using assms by (auto simp: plain_name_def valid_name_def list_all_iff is_decoration_def)

lemma is_space_32 [simp]: "is_space 32"
  by (simp add: is_space_def)

lemma is_decoration_32 [simp]: "is_decoration 32"
  by (simp add: is_decoration_def)

lemma not_space_slash [simp]: "\<not> is_space slash" "\<not> is_decoration slash"
  by (simp_all add: is_space_def is_decoration_def slash_def)

lemma name_with_suffix:
  fixes is_dir :: bool
  assumes "plain_name n" and "t = n @ (if is_dir then [slash] else [])"
  shows "t \<noteq> []" "\<not> is_decoration (hd t)" "\<not> is_space (hd t)" "\<not> is_space (last t)"
    "hash \<notin> set t" "t \<noteq> ustr ''.''"
proof -
  note f = plain_name_facts [OF assms(1)]
  show "t \<noteq> []" "\<not> is_decoration (hd t)" "\<not> is_space (hd t)" "\<not> is_space (last t)"
    using f by (auto simp: assms(2))
  show "hash \<notin> set t"
    using f by (auto simp: assms(2) hash_def slash_def)
  have "n @ [slash] \<noteq> [x]" for x
    using f(1) by (cases n) auto
  then show "t \<noteq> ustr ''.''"
    using f(9) by (auto simp: assms(2) ustr_def)
qed

lemma py_strip_id: "t \<noteq> [] \<Longrightarrow> \<not> is_space (hd t) \<Longrightarrow> \<not> is_space (last t) \<Longrightarrow> py_strip t = t"
proof -
  assume a: "t \<noteq> []" "\<not> is_space (hd t)" "\<not> is_space (last t)"
  then have "dropWhile is_space t = t"
    by (cases t) auto
  moreover have "dropWhile is_space (rev t) = rev t"
    using a by (cases t rule: rev_cases) auto
  ultimately show ?thesis by (simp add: py_strip_def)
qed

lemma py_strip_indent:
  "t \<noteq> [] \<Longrightarrow> \<not> is_space (hd t) \<Longrightarrow> \<not> is_space (last t) \<Longrightarrow> py_strip (replicate k 32 @ t) = t"
proof -
  assume a: "t \<noteq> []" "\<not> is_space (hd t)" "\<not> is_space (last t)"
  have "dropWhile is_space (replicate k 32 @ t) = dropWhile is_space t"
    by (induction k) auto
  then have "dropWhile is_space (replicate k 32 @ t) = t"
    using a by (cases t) auto
  moreover have "dropWhile is_space (rev t) = rev t"
    using a by (cases t rule: rev_cases) auto
  ultimately show ?thesis by (simp add: py_strip_def)
qed

lemma comment_here_no_hash: "hash \<notin> set s \<Longrightarrow> \<not> comment_here s"
proof -
  assume "hash \<notin> set s"
  then have "hash \<notin> set (dropWhile is_space s)"
    by (meson set_dropWhileD)
  then show ?thesis
    by (auto simp: comment_here_def split: list.splits)
qed

lemma node_raw_no_hash: "hash \<notin> set s \<Longrightarrow> node_raw s = s"
  by (induction s) (auto simp: comment_here_no_hash)

lemma line_match_indent:
  assumes "t \<noteq> []" "\<not> is_decoration (hd t)" "hash \<notin> set t"
  shows "line_match (replicate k 32 @ t) = (replicate k 32, t)"
proof -
  have "takeWhile is_decoration (replicate k 32 @ t) = replicate k 32"
    using assms(1,2) by (induction k) (auto simp: neq_Nil_conv)
  moreover have "dropWhile is_decoration (replicate k 32 @ t) = t"
    using assms(1,2) by (induction k) (auto simp: neq_Nil_conv)
  ultimately show ?thesis
    using assms(3) by (simp add: line_match_def node_raw_no_hash)
qed

lemma line_entry_rendered:
  assumes "plain_name n"
  shows "line_entry (rendered d n is_dir) =
     Some (replicate (2 * d) 32, n @ (if is_dir then [slash] else []))"
proof -
  define t where "t = n @ (if is_dir then [slash] else [])"
  have t: "t \<noteq> []" "\<not> is_decoration (hd t)" "\<not> is_space (hd t)" "\<not> is_space (last t)"
    "hash \<notin> set t" "t \<noteq> ustr ''.''"
    using name_with_suffix [OF assms t_def] by simp_all
  have r: "rendered d n is_dir = replicate (2 * d) 32 @ t"
    by (simp add: rendered_def t_def)
  have "py_strip (rendered d n is_dir) = t"
    unfolding r using t by (intro py_strip_indent)
  moreover have "line_match (rendered d n is_dir) = (replicate (2 * d) 32, t)"
    unfolding r using t by (intro line_match_indent)
  moreover have "py_strip t = t"
    using t by (intro py_strip_id)
  ultimately show ?thesis
    using t by (simp add: line_entry_def node_part_of_def Let_def t_def)
qed

lemma plain_name_ends:
  assumes "plain_name n"
  shows "\<not> endswith_slash n" "hd n \<noteq> slash"
proof -
  note f = plain_name_facts [OF assms]
  have "last n \<in> set n" "hd n \<in> set n"
    using f(1) by simp_all
  with f(2) show "\<not> endswith_slash n" "hd n \<noteq> slash"
    by (auto simp: endswith_slash_def)
qed

text \<open>Where the fences of a text are.\<close>

lemma until_fence_sep:
  assumes "c \<noteq> backquote" and "until_fence xs = None" and "until_fence ys = None"
  shows "until_fence (xs @ c # ys) = None"
  using assms(2)
proof (induction xs)
  case Nil
  then show ?case
    using assms(1,3) by simp
next
  case (Cons x xs)
  from Cons.prems have t: "take 3 (x # xs) \<noteq> [backquote, backquote, backquote]"
    and u: "until_fence xs = None"
    by (auto split: if_splits option.splits)
  have "take 3 (x # xs @ c # ys) \<noteq> [backquote, backquote, backquote]"
  proof (cases xs)
    case Nil
    then show ?thesis using assms(1) by simp
  next
    case (Cons y xs')
    then show ?thesis
      using t assms(1) by (cases xs') auto
  qed
  then show ?case
    using Cons.IH [OF u] by simp
qed

lemma until_fence_end:
  assumes "until_fence pre = None" and "pre = [] \<or> last pre \<noteq> backquote"
  shows "until_fence (pre @ fence @ rest) = Some (pre, rest)"
  using assms
proof (induction pre)
  case Nil
  then show ?case by (simp add: fence_def)
next
  case (Cons x pre)
  from Cons.prems(1) have t: "take 3 (x # pre) \<noteq> [backquote, backquote, backquote]"
    and u: "until_fence pre = None"
    by (auto split: if_splits option.splits)
  have l: "pre = [] \<or> last pre \<noteq> backquote"
    using Cons.prems(2) by (cases pre) auto
  have "take 3 (x # pre @ fence @ rest) \<noteq> [backquote, backquote, backquote]"
  proof (cases pre)
    case Nil
    then show ?thesis using Cons.prems(2) by (simp add: fence_def)
  next
    case c1: (Cons y pre1)
    show ?thesis
    proof (cases pre1)
      case Nil
      then show ?thesis using Cons.prems(2) c1 by (simp add: fence_def)
    next
      case (Cons y' pre2)
      then show ?thesis using t c1 by simp
    qed
  qed
  then show ?case
    using Cons.IH [OF u l] by simp
qed

lemma until_fence_indent: "until_fence t = None \<Longrightarrow> until_fence (replicate k 32 @ t) = None"
  by (induction k) (auto simp: backquote_def)

lemma until_fence_snoc:
  "c \<noteq> backquote \<Longrightarrow> until_fence xs = None \<Longrightarrow> until_fence (xs @ [c]) = None"
  using until_fence_sep [of c xs "[]"] by simp

lemma rendered_fine:
  assumes "plain_name n"
  shows "line_fine (rendered d n b)"
proof -
  note f = plain_name_facts [OF assms]
  have s: "slash \<noteq> backquote"
    by (simp add: slash_def backquote_def)
  have "until_fence (n @ (if b then [slash] else [])) = None"
    using f(5) until_fence_snoc [OF s f(5)] by simp
  then have u: "until_fence (rendered d n b) = None"
    unfolding rendered_def by (rule until_fence_indent)
  have "\<not> is_linebreak 32" "\<not> is_linebreak slash"
    by (simp_all add: is_linebreak_def slash_def)
  then show ?thesis
    using f u by (auto simp: line_fine_def rendered_def)
qed

lemma join_lines_Cons: "join_lines (l # ls) = l @ concat (map (\<lambda>l. 10 # l) ls)"
  by (induction ls arbitrary: l) auto

lemma joined_no_fence:
  assumes "until_fence l0 = None" and "list_all line_fine ls"
  shows "until_fence (l0 @ concat (map (\<lambda>l. 10 # l) ls)) = None"
  using assms
proof (induction ls arbitrary: l0 rule: rev_induct)
  case Nil
  then show ?case by simp
next
  case (snoc l ls)
  have n: "(10::nat) \<noteq> backquote"
    by (simp add: backquote_def)
  have "until_fence ((l0 @ concat (map (\<lambda>l. 10 # l) ls)) @ 10 # l) = None"
    using snoc.prems by (intro until_fence_sep [OF n] snoc.IH) (simp_all add: line_fine_def)
  then show ?case by simp
qed

lemma joined_last:
  assumes "l0 \<noteq> []" and "\<not> is_space (last l0)" and "list_all line_fine ls"
  shows "l0 @ concat (map (\<lambda>l. 10 # l) ls) \<noteq> [] \<and>
         \<not> is_space (last (l0 @ concat (map (\<lambda>l. 10 # l) ls)))"
  using assms(3)
proof (induction ls rule: rev_induct)
  case Nil
  then show ?case using assms(1,2) by simp
next
  case (snoc l ls)
  then have "l \<noteq> []" "\<not> is_space (last l)"
    by (simp_all add: line_fine_def)
  then show ?case
    by simp
qed

text \<open>
  Stripping the block takes the indentation of the first line and the newline before the
  closing fence, and nothing else.
\<close>

lemma block_strip:
  assumes "t \<noteq> []" and "\<not> is_space (hd t)" and "\<not> is_space (last t)" and "list_all line_fine ls"
  shows "py_strip ((replicate k 32 @ t) @ concat (map (\<lambda>l. 10 # l) ls) @ [10]) =
         t @ concat (map (\<lambda>l. 10 # l) ls)"
proof -
  define body where "body = t @ concat (map (\<lambda>l. 10 # l) ls)"
  have b: "body \<noteq> []" "\<not> is_space (last body)"
    using joined_last [OF assms(1,3,4)] by (simp_all add: body_def)
  have h: "\<not> is_space (hd body)"
    using assms(1,2) by (simp add: body_def)
  have "dropWhile is_space (replicate k 32 @ body @ [10]) = dropWhile is_space (body @ [10])"
    by (induction k) auto
  also have "\<dots> = body @ [10]"
    using b(1) h by (cases body) auto
  finally have d: "dropWhile is_space (replicate k 32 @ body @ [10]) = body @ [10]" .
  have "is_space 10"
    by (simp add: is_space_def)
  moreover have "dropWhile is_space (rev body) = rev body"
    using b by (cases body rule: rev_cases) auto
  ultimately have "py_strip (replicate k 32 @ body @ [10]) = body"
    by (simp add: py_strip_def d)
  then show ?thesis
    by (simp add: body_def)
qed

lemma splitlines_joined:
  assumes "l0 \<noteq> []" and "\<forall>c\<in>set l0. \<not> is_linebreak c" and "list_all line_fine ls"
  shows "splitlines (l0 @ concat (map (\<lambda>l. 10 # l) ls)) = l0 # ls"
  using assms
proof (induction ls arbitrary: l0)
  case Nil
  then have tw: "takeWhile (\<lambda>c. \<not> is_linebreak c) l0 = l0"
    and dw: "dropWhile (\<lambda>c. \<not> is_linebreak c) l0 = []"
    by simp_all
  have "splitlines l0 = [l0]"
    by (subst splitlines.simps) (simp only: tw dw Nil.prems(1) if_False list.case)
  then show ?case
    by simp
next
  case (Cons l ls)
  define rest where "rest = l @ concat (map (\<lambda>l. 10 # l) ls)"
  have "line_fine l" and l3: "list_all line_fine ls"
    using Cons.prems(3) by simp_all
  then have l: "l \<noteq> []" "\<forall>c\<in>set l. \<not> is_linebreak c" "list_all line_fine ls"
    by (simp_all add: line_fine_def)
  have lb: "is_linebreak 10"
    by (simp add: is_linebreak_def)
  have t: "takeWhile (\<lambda>c. \<not> is_linebreak c) (l0 @ 10 # rest) = l0"
    using Cons.prems(2) lb by (simp add: takeWhile_append2)
  have d: "dropWhile (\<lambda>c. \<not> is_linebreak c) (l0 @ 10 # rest) = 10 # rest"
    using Cons.prems(2) lb by (simp add: dropWhile_append2)
  obtain c r where r: "rest = c # r"
    using l(1) by (cases rest) (auto simp: rest_def)
  have "splitlines (l0 @ 10 # rest) = l0 # splitlines rest"
    using Cons.prems(1) unfolding r
    by (subst splitlines.simps) (simp add: t [unfolded r] d [unfolded r])
  also have "splitlines rest = l # ls"
    unfolding rest_def using l by (rule Cons.IH)
  finally show ?case
    by (simp add: rest_def)
qed

text \<open>
  What the parser reads in the diagram of a list of entries: no line when there is no
  entry, and otherwise the line of each entry, the first one without its indentation.
\<close>

lemma diagram_lines:
  assumes "plain_name n" and "list_all line_fine ls"
  shows "code_block_match uni (fence @ 10 # join_lines (rendered d n b # ls) @ 10 # fence) =
           Some (join_lines (rendered d n b # ls) @ [10])"
    and "splitlines (py_strip (join_lines (rendered d n b # ls) @ [10])) = rendered 0 n b # ls"
proof -
  define t where "t = n @ (if b then [slash] else [])"
  have t: "t \<noteq> []" "\<not> is_decoration (hd t)" "\<not> is_space (hd t)" "\<not> is_space (last t)"
    "hash \<notin> set t" "t \<noteq> ustr ''.''"
    using name_with_suffix [OF assms(1) t_def] by simp_all
  have r: "rendered d n b = replicate (2 * d) 32 @ t" and r0: "rendered 0 n b = t"
    by (simp_all add: rendered_def t_def)
  have f: "line_fine (rendered d n b)" and f0: "line_fine (rendered 0 n b)"
    using assms(1) by (rule rendered_fine)+
  define body where "body = join_lines (rendered d n b # ls)"
  have body: "body = rendered d n b @ concat (map (\<lambda>l. 10 # l) ls)"
    by (simp add: body_def join_lines_Cons)
  have "until_fence body = None"
    unfolding body using f assms(2) by (intro joined_no_fence) (simp_all add: line_fine_def)
  then have nf: "until_fence (body @ [10]) = None"
    by (intro until_fence_snoc) (simp_all add: backquote_def)
  have "until_fence ((body @ [10]) @ fence @ []) = Some (body @ [10], [])"
    using nf by (intro until_fence_end) (simp_all add: backquote_def)
  moreover have "until_fence ([] @ fence @ 10 # body @ 10 # fence) = Some ([], 10 # body @ 10 # fence)"
    by (intro until_fence_end) simp_all
  ultimately show "code_block_match uni (fence @ 10 # join_lines (rendered d n b # ls) @ 10 # fence) =
           Some (join_lines (rendered d n b # ls) @ [10])"
    by (simp add: code_block_match_def skip_lang_newline body_def)
  have "py_strip (body @ [10]) = t @ concat (map (\<lambda>l. 10 # l) ls)"
    using block_strip [OF t(1,3,4) assms(2), of "2 * d"] by (simp add: body r)
  moreover have "splitlines (t @ concat (map (\<lambda>l. 10 # l) ls)) = t # ls"
    using f0 assms(2) unfolding r0 by (intro splitlines_joined) (simp_all add: line_fine_def)
  ultimately show "splitlines (py_strip (join_lines (rendered d n b # ls) @ [10])) = rendered 0 n b # ls"
    by (simp add: body_def r0)
qed

lemma empty_diagram:
  "extract_documented_paths uni cfg (Content (fence @ 10 # join_lines [] @ 10 # fence)) =
     Inr ([], Some {})"
proof -
  have "until_fence ([10] @ fence @ []) = Some ([10], [])"
    by (intro until_fence_end) (simp_all add: backquote_def)
  moreover have "until_fence ([] @ fence @ 10 # [] @ 10 # fence) = Some ([], 10 # [] @ 10 # fence)"
    by (intro until_fence_end) simp_all
  ultimately have "code_block_match uni (fence @ 10 # join_lines [] @ 10 # fence) = Some [10]"
    by (simp add: code_block_match_def skip_lang_newline)
  moreover have "py_strip [10] = []"
    by (simp add: py_strip_def is_space_def)
  ultimately show ?thesis
    by (simp add: extract_documented_paths_def splitlines.simps parse_lines_def initial_state_def
        final_documented_paths_empty)
qed

subsection \<open>The stack of a directory\<close>

lemma chain_Nil [simp]: "chain z [] = []"
  by (simp add: chain_def)

lemma chain_snoc:
  "chain z (rel @ [n]) =
     (as_posix (rel @ [n]), if rel = [] then z else 2 * Suc (length rel)) # chain z rel"
  by (simp add: chain_def)

lemma chain_rev_indents: "z \<le> 2 \<Longrightarrow> e \<in> set (chain_rev z r) \<Longrightarrow> snd e \<le> 2 * length r"
  by (induction r) (auto split: if_splits)

lemma chain_indents: "z \<le> 2 \<Longrightarrow> e \<in> set (chain z rel) \<Longrightarrow> snd e \<le> 2 * length rel"
  using chain_rev_indents [of z e "rev rel"] by (simp add: chain_def)

lemma chain_append:
  assumes "r \<noteq> [] \<or> z = 2"
  shows "\<exists>extra. chain z (r @ inner) = extra @ chain z r \<and>
           (\<forall>e\<in>set extra. 2 * Suc (length r) \<le> snd e)"
proof (induction inner rule: rev_induct)
  case Nil
  then show ?case by simp
next
  case (snoc m inner)
  then obtain extra where e: "chain z (r @ inner) = extra @ chain z r"
      "\<forall>e\<in>set extra. 2 * Suc (length r) \<le> snd e"
    by blast
  define top where
    "top = (as_posix ((r @ inner) @ [m]), if r @ inner = [] then z else 2 * Suc (length (r @ inner)))"
  have "chain z (r @ inner @ [m]) = (top # extra) @ chain z r"
    using chain_snoc [of z "r @ inner" m] e(1) by (simp add: top_def)
  moreover have "2 * Suc (length r) \<le> snd top"
    using assms by (auto simp: top_def)
  ultimately show ?case
    using e(2) by (intro exI [of _ "top # extra"]) simp
qed

lemma pop_stack_extra:
  "\<forall>e\<in>set extra. k \<le> snd e \<Longrightarrow> pop_stack k (extra @ stack) = pop_stack k stack"
  by (induction extra) auto

lemma pop_stack_keep: "\<forall>e\<in>set stack. snd e < k \<Longrightarrow> pop_stack k stack = stack"
  by (cases stack) auto

lemma pop_stack_chain:
  assumes "z \<le> 2" and "\<forall>e\<in>set extra. 2 * Suc (length rel) \<le> snd e"
  shows "pop_stack (2 * Suc (length rel)) (extra @ chain z rel) = chain z rel"
proof -
  have "\<forall>e\<in>set (chain z rel). snd e < 2 * Suc (length rel)"
    using chain_indents [OF assms(1), of _ rel] by fastforce
  then show ?thesis
    using assms(2) by (simp add: pop_stack_extra pop_stack_keep)
qed

lemma entry_path_chain:
  assumes "list_all valid_name rel" and "node \<noteq> []" and "hd node \<noteq> slash"
  shows "entry_path (chain z rel) node =
     (if rel = [] then node else as_posix rel @ slash # node)"
proof (cases rel rule: rev_cases)
  case Nil
  then show ?thesis by (simp add: entry_path_def)
next
  case (snoc ups n)
  have "as_posix rel \<noteq> []"
    using assms(1) snoc by (intro as_posix_nonempty) simp_all
  then show ?thesis
    using assms(2,3) snoc by (simp add: entry_path_def chain_snoc startswith_slash_def)
qed

lemma process_entry_added:
  assumes "star \<notin> set node"
    and "rstrip_slash node \<notin> ignore_dirs cfg" and "rstrip_slash node \<notin> ignore_files cfg"
    and "pop_stack (length prefix) (path_stack st) = stack"
    and "entry_path stack node = path"
    and "path_name (rstrip_slash path) \<notin> ignore_dirs cfg"
    and "path_name (rstrip_slash path) \<notin> ignore_files cfg"
    and "endswith_slash node \<or> py_lower uni (path_suffix (rstrip_slash path)) \<notin> ignore_extensions cfg"
    and "\<not> list_ex (\<lambda>part. part \<in> ignore_dirs cfg) (path_parts (final_form path (endswith_slash node)))"
  shows "process_entry uni cfg st prefix node =
     \<lparr>documented_paths_full = insert (final_form path (endswith_slash node)) (documented_paths_full st),
      path_stack = (if endswith_slash node then (rstrip_slash path, length prefix) # stack else stack)\<rparr>"
  using assms
  unfolding process_entry_def Let_def entry_path_cases final_form_def
  by (auto split: if_splits)

text \<open>
  The line of an entry of the directory \<open>rel\<close>, met when the unwinding leaves the stack
  of \<open>rel\<close>: the entry is added, and a directory is pushed.
\<close>

lemma entry_added_chain:
  fixes b :: bool
  assumes "open_dir cfg rel" and "plain_name n" and "n \<notin> ignore_dirs cfg"
    and "if b then n \<notin> ignore_files cfg else file_kept uni cfg rel n"
    and "pop_stack (length prefix) (path_stack st) = chain z rel"
  shows "process_entry uni cfg st prefix (n @ (if b then [slash] else [])) =
     \<lparr>documented_paths_full =
        insert (as_posix (rel @ [n]) @ (if b then [slash] else [])) (documented_paths_full st),
      path_stack = (if b then (as_posix (rel @ [n]), length prefix) # chain z rel
                    else chain z rel)\<rparr>"
proof -
  define node where "node = n @ (if b then [slash] else [])"
  define path where "path = as_posix (rel @ [n]) @ (if b then [slash] else [])"
  note f = plain_name_facts [OF assms(2)]
  have vr: "list_all valid_name rel" and nd: "\<forall>c\<in>set rel. c \<notin> ignore_dirs cfg"
    using assms(1) by (simp_all add: open_dir_def)
  have v: "rel @ [n] \<noteq> []" "list_all valid_name (rel @ [n])"
    using vr f(10) by simp_all
  have ne: "\<not> endswith_slash n" and hs: "hd n \<noteq> slash"
    using plain_name_ends [OF assms(2)] by simp_all
  have es: "endswith_slash node = b"
    using ne by (simp add: node_def endswith_slash_def)
  have hn: "node \<noteq> []" "hd node \<noteq> slash"
    using f(1) hs by (simp_all add: node_def)
  have st: "star \<notin> set node"
    using f(4) by (simp add: node_def star_def slash_def)
  have rs: "rstrip_slash node = n"
    unfolding node_def
    using rstrip_slash_snoc [OF ne] rstrip_slash_id [OF ne] by (cases b) simp_all
  have ep: "entry_path (chain z rel) node = path"
    using entry_path_chain [OF vr hn, of z]
    by (cases "rel = []") (simp_all add: as_posix_snoc node_def path_def)
  have rp: "rstrip_slash path = as_posix (rel @ [n])"
    unfolding path_def
    using rstrip_slash_snoc [OF as_posix_not_end [OF v]] rstrip_slash_id [OF as_posix_not_end [OF v]]
    by (cases b) simp_all
  have ff: "final_form path b = path"
    unfolding final_form_def rp by (simp add: path_def)
  have nf: "n \<notin> ignore_files cfg"
    using assms(4) by (cases b) (simp_all add: file_kept_def)
  have pp: "path_parts path = rel @ [n]"
    by (cases b) (simp_all add: path_def path_parts_as_posix [OF v] path_parts_as_posix_slash [OF v])
  have "process_entry uni cfg st prefix node =
     \<lparr>documented_paths_full = insert (final_form path (endswith_slash node)) (documented_paths_full st),
      path_stack = (if endswith_slash node then (rstrip_slash path, length prefix) # chain z rel
                    else chain z rel)\<rparr>"
  proof (rule process_entry_added [OF st _ _ assms(5) ep])
    show "rstrip_slash node \<notin> ignore_dirs cfg" "rstrip_slash node \<notin> ignore_files cfg"
      using rs assms(3) nf by simp_all
    show "path_name (rstrip_slash path) \<notin> ignore_dirs cfg"
      "path_name (rstrip_slash path) \<notin> ignore_files cfg"
      using assms(3) nf by (simp_all add: rp path_name_as_posix [OF v])
    show "endswith_slash node \<or>
        py_lower uni (path_suffix (rstrip_slash path)) \<notin> ignore_extensions cfg"
      using assms(4) by (cases b) (simp_all add: es rp path_suffix_as_posix [OF v] file_kept_def)
    show "\<not> list_ex (\<lambda>part. part \<in> ignore_dirs cfg)
        (path_parts (final_form path (endswith_slash node)))"
      using nd assms(3) by (simp add: es ff pp list_ex_iff)
  qed
  then show ?thesis
    by (simp add: ff es rp node_def [symmetric] path_def [symmetric])
qed

subsection \<open>The line of one entry\<close>

lemma entry_ok_facts:
  assumes "entry_ok uni cfg p"
  shows "path_parts p = butlast (path_parts p) @ [last (path_parts p)]"
    and "open_dir cfg (butlast (path_parts p))"
    and "plain_name (last (path_parts p))"
    and "last (path_parts p) \<notin> ignore_dirs cfg"
    and "if endswith_slash p then last (path_parts p) \<notin> ignore_files cfg
         else file_kept uni cfg (butlast (path_parts p)) (last (path_parts p))"
    and "p = as_posix (butlast (path_parts p) @ [last (path_parts p)]) @
           (if endswith_slash p then [slash] else [])"
    and "list_all valid_name (path_parts p)"
    and "path_parts p \<noteq> []"
proof -
  from assms have ne: "path_parts p \<noteq> []" and v: "list_all valid_name (path_parts p)"
    and nd: "\<forall>d\<in>set (path_parts p). d \<notin> ignore_dirs cfg"
    by (simp_all add: entry_ok_def)
  show c: "path_parts p = butlast (path_parts p) @ [last (path_parts p)]"
    using ne by simp
  show "open_dir cfg (butlast (path_parts p))"
    using v nd by (auto simp: open_dir_def list_all_iff dest: in_set_butlastD)
  show "plain_name (last (path_parts p))"
    using assms by (simp add: entry_ok_def)
  show "last (path_parts p) \<notin> ignore_dirs cfg"
    using nd ne by simp
  show "if endswith_slash p then last (path_parts p) \<notin> ignore_files cfg
         else file_kept uni cfg (butlast (path_parts p)) (last (path_parts p))"
    using assms by (simp add: entry_ok_def)
  show "p = as_posix (butlast (path_parts p) @ [last (path_parts p)]) @
           (if endswith_slash p then [slash] else [])"
    using assms ne by (simp add: entry_ok_def)
  show "list_all valid_name (path_parts p)" "path_parts p \<noteq> []"
    using v ne by simp_all
qed

lemma entry_ok_name:
  assumes "entry_ok uni cfg p"
  shows "path_name p = last (path_parts p)"
proof -
  define cs where "cs = path_parts p"
  define e where "e = endswith_slash p"
  have v: "cs \<noteq> []" "list_all valid_name cs" and p: "p = as_posix cs @ (if e then [slash] else [])"
    using assms by (simp_all add: entry_ok_def cs_def e_def)
  have a: "path_name p = path_name (as_posix cs @ (if e then [slash] else []))"
    by (rule arg_cong [OF p])
  have b: "path_name (as_posix cs @ (if e then [slash] else [])) = last cs"
    by (cases e) (simp_all add: path_name_as_posix [OF v] path_name_as_posix_slash [OF v])
  from a b have "path_name p = last cs"
    by (rule trans)
  then show ?thesis
    by (simp only: cs_def)
qed

lemma entry_ok_line:
  assumes "entry_ok uni cfg p"
  shows "entry_line p =
     rendered (Suc (length (butlast (path_parts p)))) (last (path_parts p)) (endswith_slash p)"
proof -
  have "length (path_parts p) = Suc (length (butlast (path_parts p)))"
    using entry_ok_facts(8) [OF assms] by simp
  then show ?thesis
    by (simp add: entry_line_def rendered_def entry_ok_name [OF assms])
qed

lemma entry_ok_fine: "entry_ok uni cfg p \<Longrightarrow> line_fine (entry_line p)"
  by (simp add: entry_ok_line rendered_fine entry_ok_facts(3))

lemma entry_ok_keep:
  assumes "entry_ok uni cfg p"
  shows "final_keep uni cfg p"
proof -
  define cs where "cs = path_parts p"
  define e where "e = endswith_slash p"
  have v: "cs \<noteq> []" "list_all valid_name cs" and p: "p = as_posix cs @ (if e then [slash] else [])"
    and nd: "\<forall>d\<in>set cs. d \<notin> ignore_dirs cfg"
    and k: "if e then last cs \<notin> ignore_files cfg else file_kept uni cfg (butlast cs) (last cs)"
    using assms by (simp_all add: entry_ok_def cs_def e_def)
  have n: "path_name p = last cs"
    using entry_ok_name [OF assms] by (simp add: cs_def)
  have l: "last cs \<notin> ignore_dirs cfg"
    using nd v(1) by simp
  have f: "last cs \<notin> ignore_files cfg"
    using k by (cases e) (simp_all add: file_kept_def)
  have x: "e \<or> py_lower uni (path_suffix p) \<notin> ignore_extensions cfg"
  proof (cases e)
    case True
    then show ?thesis by simp
  next
    case False
    then have "p = as_posix cs"
      using p by simp
    then have "path_suffix p = name_suffix (last cs)"
      using path_suffix_as_posix [OF v] by simp
    then show ?thesis
      using k False by (simp add: file_kept_def)
  qed
  show ?thesis
    using n l f x nd
    by (simp add: final_keep_def list_ex_iff cs_def [symmetric] e_def [symmetric])
qed

text \<open>The line of an entry that follows the entry \<open>q\<close>.\<close>

lemma entry_step:
  assumes ok: "entry_ok uni cfg p" and l: "linked z q p"
    and s: "path_stack st = chain z (dir_parts q)" and z: "z \<le> 2"
  shows "process_line uni cfg st (entry_line p) =
     \<lparr>documented_paths_full = insert p (documented_paths_full st),
      path_stack = chain z (dir_parts p)\<rparr>"
proof -
  define r where "r = butlast (path_parts p)"
  define n where "n = last (path_parts p)"
  define e where "e = endswith_slash p"
  note f = entry_ok_facts [OF ok, folded r_def n_def e_def]
  have tk: "take (length r) (dir_parts q) = r" and one: "length (path_parts p) = 1 \<longrightarrow> z = 2"
    using l by (simp_all add: linked_def r_def)
  have rz: "r \<noteq> [] \<or> z = 2"
    using one f(1) by (cases "r = []") simp_all
  have "dir_parts q = r @ drop (length r) (dir_parts q)"
    using tk append_take_drop_id [of "length r" "dir_parts q"] by simp
  with chain_append [OF rz, of "drop (length r) (dir_parts q)"]
  obtain extra where x: "chain z (dir_parts q) = extra @ chain z r"
      "\<forall>e\<in>set extra. 2 * Suc (length r) \<le> snd e"
    by auto
  have pop: "pop_stack (length (replicate (2 * Suc (length r)) (32::nat))) (path_stack st) = chain z r"
    using pop_stack_chain [OF z x(2)] by (simp add: s x(1))
  have "entry_line p = rendered (Suc (length r)) n e"
    using entry_ok_line [OF ok] by (simp only: r_def n_def e_def)
  then have line: "line_entry (entry_line p) =
      Some (replicate (2 * Suc (length r)) 32, n @ (if e then [slash] else []))"
    by (simp only: line_entry_rendered [OF f(3)])
  have "process_entry uni cfg st (replicate (2 * Suc (length r)) 32) (n @ (if e then [slash] else [])) =
     \<lparr>documented_paths_full =
        insert (as_posix (r @ [n]) @ (if e then [slash] else [])) (documented_paths_full st),
      path_stack = (if e then (as_posix (r @ [n]), length (replicate (2 * Suc (length r)) (32::nat))) # chain z r
                    else chain z r)\<rparr>"
    using f(2) f(3) f(4) f(5) pop by (rule entry_added_chain)
  moreover have "as_posix (r @ [n]) @ (if e then [slash] else []) = p"
    using f(6) by simp
  moreover have "(if e then (as_posix (r @ [n]), length (replicate (2 * Suc (length r)) (32::nat))) # chain z r
                    else chain z r) = chain z (dir_parts p)"
  proof (cases e)
    case True
    then have "dir_parts p = r @ [n]"
      using f(1) by (simp add: dir_parts_def e_def)
    then show ?thesis
      using True rz by (auto simp: chain_snoc)
  next
    case False
    then have "dir_parts p = r"
      by (simp add: dir_parts_def e_def r_def)
    then show ?thesis
      using False by simp
  qed
  ultimately show ?thesis
    by (simp add: process_line_def line)
qed

text \<open>The first line of the block, which has lost its indentation.\<close>

lemma first_step:
  assumes ok: "entry_ok uni cfg p" and one: "length (path_parts p) = 1"
    and z: "z = (if endswith_slash p then 0 else 2)"
  shows "process_line uni cfg initial_state
           (rendered 0 (last (path_parts p)) (endswith_slash p)) =
     \<lparr>documented_paths_full = {p}, path_stack = chain z (dir_parts p)\<rparr>"
proof -
  define n where "n = last (path_parts p)"
  define e where "e = endswith_slash p"
  have r: "butlast (path_parts p) = []"
    using one by (cases "path_parts p") simp_all
  note f = entry_ok_facts [OF ok, unfolded r, folded n_def e_def]
  have pop: "pop_stack (length ([] :: ustring)) (path_stack initial_state) = chain z []"
    by (simp add: initial_state_def)
  have line: "line_entry (rendered 0 n e) = Some ([], n @ (if e then [slash] else []))"
    using line_entry_rendered [OF f(3), of 0 e] by simp
  have "process_entry uni cfg initial_state [] (n @ (if e then [slash] else [])) =
     \<lparr>documented_paths_full =
        insert (as_posix ([] @ [n]) @ (if e then [slash] else []))
          (documented_paths_full initial_state),
      path_stack = (if e then (as_posix ([] @ [n]), length ([] :: ustring)) # chain z []
                    else chain z [])\<rparr>"
    using f(2) f(3) f(4) f(5) pop by (rule entry_added_chain)
  moreover have "as_posix ([] @ [n]) @ (if e then [slash] else []) = p"
    using f(6) by simp
  moreover have "(if e then (as_posix ([] @ [n]), length ([] :: ustring)) # chain z []
                    else chain z []) = chain z (dir_parts p)"
  proof (cases e)
    case True
    then have "dir_parts p = [] @ [n]"
      using f(1) by (simp add: dir_parts_def e_def)
    then show ?thesis
      using True z chain_snoc [of z "[]" n] by (simp add: e_def)
  next
    case False
    then have "dir_parts p = []"
      using r by (simp add: dir_parts_def e_def)
    then show ?thesis
      using False by simp
  qed
  ultimately show ?thesis
    by (simp add: process_line_def line initial_state_def n_def [symmetric] e_def [symmetric])
qed

lemma parse_rest:
  assumes "z \<le> 2"
  shows "list_all (entry_ok uni cfg) ps \<Longrightarrow> successively (linked z) (q # ps) \<Longrightarrow>
         path_stack st = chain z (dir_parts q) \<Longrightarrow>
         documented_paths_full (foldl (process_line uni cfg) st (map entry_line ps)) =
           documented_paths_full st \<union> set ps"
proof (induction ps arbitrary: q st)
  case Nil
  then show ?case by simp
next
  case (Cons p ps)
  have ok: "entry_ok uni cfg p" and oks: "list_all (entry_ok uni cfg) ps"
    using Cons.prems(1) by simp_all
  have l: "linked z q p" and ls: "successively (linked z) (p # ps)"
    using Cons.prems(2) by simp_all
  define st' where "st' = process_line uni cfg st (entry_line p)"
  have st': "st' = \<lparr>documented_paths_full = insert p (documented_paths_full st),
      path_stack = chain z (dir_parts p)\<rparr>"
    unfolding st'_def using ok l Cons.prems(3) assms by (rule entry_step)
  then have s: "path_stack st' = chain z (dir_parts p)"
    by simp
  have "documented_paths_full (foldl (process_line uni cfg) st' (map entry_line ps)) =
           documented_paths_full st' \<union> set ps"
    using oks ls s by (rule Cons.IH)
  then show ?case
    by (simp add: st'_def [symmetric]) (simp add: st')
qed

subsection \<open>Entries in ascending order\<close>

lemma prefix_parts:
  assumes ok: "entry_ok uni cfg q" and r: "r \<noteq> []" "list_all valid_name r"
    and t: "take (length (as_posix r @ [slash])) q = as_posix r @ [slash]"
  shows "take (length r) (dir_parts q) = r"
proof -
  define cq where "cq = path_parts q"
  define e where "e = endswith_slash q"
  define rest where "rest = drop (length (as_posix r @ [slash])) q"
  have v: "cq \<noteq> []" "list_all valid_name cq" and q: "q = as_posix cq @ (if e then [slash] else [])"
    using ok by (simp_all add: entry_ok_def cq_def e_def)
  have ns: "\<forall>c\<in>set cq. slash \<notin> set c" "\<forall>c\<in>set r. slash \<notin> set c"
    using v(2) r(2) by (simp_all add: list_all_iff valid_name_def)
  have "q = (as_posix r @ [slash]) @ rest"
    using t append_take_drop_id [of "length (as_posix r @ [slash])" q] by (simp add: rest_def)
  then have "split_slash q = split_slash (as_posix r @ slash # rest)"
    by simp
  then have a: "split_slash q = r @ split_slash rest"
    by (simp add: split_slash_append split_slash_as_posix [OF r(1) ns(2)])
  have b: "split_slash (as_posix cq @ (if e then [slash] else [])) = cq @ (if e then [[]] else [])"
    by (cases e) (simp_all add: split_slash_append split_slash_as_posix [OF v(1) ns(1)])
  have c: "cq @ (if e then [[]] else []) = r @ split_slash rest"
    using a b q by simp
  obtain x xs where sr: "split_slash rest = xs @ [x]"
    using split_slash_nonempty [of rest] by (cases "split_slash rest" rule: rev_cases) auto
  have "dir_parts q = (if e then cq else butlast cq)"
    by (simp add: dir_parts_def e_def cq_def)
  also have "\<dots> = r @ xs"
  proof (cases e)
    case True
    with c sr have "cq @ [[]] = (r @ xs) @ [x]" by simp
    then have "cq = r @ xs" by (simp only: append1_eq_conv)
    with True show ?thesis by simp
  next
    case False
    with c sr have "cq = (r @ xs) @ [x]" by simp
    then have "butlast cq = r @ xs" by (simp only: butlast_snoc)
    with False show ?thesis by simp
  qed
  finally show ?thesis by simp
qed

text \<open>
  In ascending order the directory of an entry is among the directories of the entry
  before it.
\<close>

lemma sorted_linked:
  assumes "\<forall>p\<in>set ps. length (path_parts p) = 1 \<longrightarrow> z = 2"
  shows "sorted (xs @ q # ps) \<Longrightarrow>
     \<forall>p\<in>set (xs @ q # ps). entry_ok uni cfg p \<and>
        (butlast (path_parts p) \<noteq> [] \<longrightarrow>
           as_posix (butlast (path_parts p)) @ [slash] \<in> set (xs @ q # ps)) \<Longrightarrow>
     successively (linked z) (q # ps)"
  using assms
proof (induction ps arbitrary: xs q)
  case Nil
  then show ?case by simp
next
  case (Cons p ps)
  define r where "r = butlast (path_parts p)"
  define n where "n = last (path_parts p)"
  have okp: "entry_ok uni cfg p" and okq: "entry_ok uni cfg q"
    using Cons.prems(2) by simp_all
  note f = entry_ok_facts [OF okp, folded r_def n_def]
  have "take (length r) (dir_parts q) = r"
  proof (cases "r = []")
    case True
    then show ?thesis by simp
  next
    case False
    define P where "P = as_posix r @ [slash]"
    have vr: "list_all valid_name r"
      using f(2) by (simp add: open_dir_def)
    have Pin: "P \<in> set (xs @ q # p # ps)"
      using Cons.prems(2) False by (simp add: P_def r_def)
    have nn: "n \<noteq> []"
      using plain_name_facts(1) [OF f(3)] .
    have "p = P @ n @ (if endswith_slash p then [slash] else [])"
      using f(6) False by (simp add: as_posix_snoc P_def)
    then obtain y ys where p: "p = P @ y # ys"
      using nn by (cases n) auto
    have "P < p"
      using less_append [of P y ys] p by simp
    with Cons.prems(1) Pin have "P \<le> q"
      by (rule sorted_before)
    moreover have "q \<le> p"
      using Cons.prems(1) by (simp add: sorted_append)
    moreover have "take (length P) p = P"
      using p by simp
    ultimately have "take (length P) q = P"
      using lex_between by blast
    then show ?thesis
      unfolding P_def using okq False vr by (intro prefix_parts) 
  qed
  moreover have "length (path_parts p) = 1 \<longrightarrow> z = 2"
    using Cons.prems(3) by simp
  ultimately have l: "linked z q p"
    by (simp add: linked_def r_def)
  have "successively (linked z) (p # ps)"
  proof (rule Cons.IH [of "xs @ [q]" p])
    show "sorted ((xs @ [q]) @ p # ps)"
      using Cons.prems(1) by simp
    show "\<forall>pa\<in>set ((xs @ [q]) @ p # ps). entry_ok uni cfg pa \<and>
        (butlast (path_parts pa) \<noteq> [] \<longrightarrow>
           as_posix (butlast (path_parts pa)) @ [slash] \<in> set ((xs @ [q]) @ p # ps))"
      using Cons.prems(2) by simp
    show "\<forall>p\<in>set ps. length (path_parts p) = 1 \<longrightarrow> z = 2"
      using Cons.prems(3) by simp
  qed
  with l show ?case by simp
qed

lemma first_depth:
  assumes "sorted (p # ps)"
    and "\<forall>x\<in>set (p # ps). entry_ok uni cfg x \<and>
        (butlast (path_parts x) \<noteq> [] \<longrightarrow>
           as_posix (butlast (path_parts x)) @ [slash] \<in> set (p # ps))"
  shows "length (path_parts p) = 1"
proof -
  define r where "r = butlast (path_parts p)"
  define n where "n = last (path_parts p)"
  have ok: "entry_ok uni cfg p"
    using assms(2) by simp
  note f = entry_ok_facts [OF ok, folded r_def n_def]
  have "r = []"
  proof (rule ccontr)
    assume False: "r \<noteq> []"
    define P where "P = as_posix r @ [slash]"
    have Pin: "P \<in> set (p # ps)"
      using assms(2) False by (simp add: P_def r_def)
    have nn: "n \<noteq> []"
      using plain_name_facts(1) [OF f(3)] .
    have "p = P @ n @ (if endswith_slash p then [slash] else [])"
      using f(6) False by (simp add: as_posix_snoc P_def)
    then obtain y ys where p: "p = P @ y # ys"
      using nn by (cases n) auto
    have "P < p"
      using less_append [of P y ys] p by simp
    moreover have "p \<le> P"
      using assms(1) Pin by auto
    ultimately show False by simp
  qed
  then show ?thesis
    using f(1) by simp
qed

subsection \<open>The result set of the scanner\<close>

lemma walk_parent:
  assumes "list_all valid_name rel" and "list_all wf_entry entries"
    and "p \<in> set (walk uni cfg rel entries)"
  shows "\<exists>cs b. list_all valid_name cs \<and> p = as_posix (rel @ cs) @ (if b then [slash] else []) \<and>
           (cs = [] \<longrightarrow> b \<and> rel \<noteq> []) \<and>
           (cs \<noteq> [] \<longrightarrow> rel @ butlast cs \<noteq> [] \<longrightarrow>
              as_posix (rel @ butlast cs) @ [slash] \<in> set (walk uni cfg rel entries))"
  using assms
proof (induction uni cfg rel entries arbitrary: p rule: walk.induct)
  case (1 uni cfg rel entries)
  have self: "as_posix rel @ [slash] \<in> set (walk uni cfg rel entries)" if "rel \<noteq> []"
    using that visit_dir_set [OF "1.prems"(1), of uni cfg entries]
    by (simp add: walk_set [of _ uni cfg rel entries])
  from "1.prems"(3) consider
      (here) "p \<in> set (visit_dir uni cfg rel entries)"
    | (below) d sub where "Dir d sub \<in> set entries" "d \<notin> ignore_dirs cfg"
        "p \<in> set (walk uni cfg (rel @ [d]) sub)"
    by (auto simp: walk_set [of p uni cfg rel entries])
  then show ?case
  proof cases
    case here
    then consider "rel \<noteq> []" "p = as_posix rel @ [slash]"
      | n where "File n \<in> set entries" "file_kept uni cfg rel n" "p = as_posix (rel @ [n])"
      using visit_dir_set [OF "1.prems"(1), of uni cfg entries] by (auto split: if_splits)
    then show ?thesis
    proof cases
      case 1
      then show ?thesis
        by (intro exI [of _ "[]"] exI [of _ True]) simp
    next
      case 2
      from 2(1) "1.prems"(2) have vn: "valid_name n"
        by (auto simp: list_all_iff)
      show ?thesis
        using vn 2(3) self by (intro exI [of _ "[n]"] exI [of _ False]) simp
    qed
  next
    case below
    from below(1) "1.prems"(2) have vd: "valid_name d" and wsub: "list_all wf_entry sub"
      by (auto simp: list_all_iff)
    have vrel: "list_all valid_name (rel @ [d])"
      using "1.prems"(1) vd by simp
    have sub: "x \<in> set (walk uni cfg rel entries)" if "x \<in> set (walk uni cfg (rel @ [d]) sub)" for x
      using that below(1,2) walk_set [of x uni cfg rel entries] by blast
    from "1.IH" [OF below(1) refl below(2) vrel wsub below(3)]
    obtain cs b where c: "list_all valid_name cs"
        "p = as_posix ((rel @ [d]) @ cs) @ (if b then [slash] else [])"
        "cs = [] \<longrightarrow> b \<and> rel @ [d] \<noteq> []"
        "cs \<noteq> [] \<longrightarrow> (rel @ [d]) @ butlast cs \<noteq> [] \<longrightarrow>
              as_posix ((rel @ [d]) @ butlast cs) @ [slash] \<in> set (walk uni cfg (rel @ [d]) sub)"
      by blast
    show ?thesis
    proof (cases "cs = []")
      case True
      then show ?thesis
        using c(2,3) vd self by (intro exI [of _ "[d]"] exI [of _ b]) simp
    next
      case False
      then have "as_posix (rel @ butlast (d # cs)) @ [slash] \<in> set (walk uni cfg rel entries)"
        using c(4) sub by simp
      then show ?thesis
        using c(1,2) vd False by (intro exI [of _ "d # cs"] exI [of _ b]) simp
    qed
  qed
qed

lemma scan_entry_ok:
  assumes w: "list_all wf_entry root" and m: "p \<in> scan_project_files_for_verify uni cfg root"
    and d: "diagram_entry cfg p"
  shows "entry_ok uni cfg p"
    and "butlast (path_parts p) \<noteq> [] \<longrightarrow>
       as_posix (butlast (path_parts p)) @ [slash] \<in> scan_project_files_for_verify uni cfg root"
proof -
  from scan_paths [OF w m] consider
      (a_file) comps where "scanned_file uni cfg [] root comps" "p = as_posix comps"
    | (a_dir) comps where "scanned_dir cfg root comps" "p = as_posix comps @ [slash]"
    by blast
  then show "entry_ok uni cfg p"
  proof cases
    case a_file
    then have c: "comps \<noteq> []" "list_all valid_name comps"
      and nd: "\<forall>d\<in>set (butlast comps). d \<notin> ignore_dirs cfg"
      and k: "file_kept uni cfg (butlast comps) (last comps)"
      by (simp_all add: scanned_file_def)
    have e: "\<not> endswith_slash p"
      using a_file(2) as_posix_not_end [OF c] by simp
    have pp: "path_parts p = comps" and pn: "path_name p = last comps"
      using a_file(2) path_parts_as_posix [OF c] path_name_as_posix [OF c] by simp_all
    have "plain_name (last comps)" and l: "last comps \<notin> ignore_dirs cfg"
      using d e pn by (simp_all add: diagram_entry_def)
    moreover have "\<forall>d\<in>set comps. d \<notin> ignore_dirs cfg"
    proof
      fix x assume "x \<in> set comps"
      then have "x \<in> set (butlast comps @ [last comps])"
        using c(1) by simp
      then show "x \<notin> ignore_dirs cfg"
        using nd l by auto
    qed
    ultimately show ?thesis
      unfolding entry_ok_def pp using c k e a_file(2) by simp
  next
    case a_dir
    then have c: "comps \<noteq> []" "list_all valid_name comps"
      and nd: "\<forall>d\<in>set comps. d \<notin> ignore_dirs cfg"
      by (simp_all add: scanned_dir_def)
    have e: "endswith_slash p"
      using a_dir(2) by (simp add: endswith_slash_def)
    have pp: "path_parts p = comps" and pn: "path_name p = last comps"
      using a_dir(2) path_parts_as_posix_slash [OF c] path_name_as_posix_slash [OF c] by simp_all
    have "plain_name (last comps)" and "last comps \<notin> ignore_files cfg"
      using d e pn by (simp_all add: diagram_entry_def)
    then show ?thesis
      unfolding entry_ok_def pp using c nd e a_dir(2) by simp
  qed
  from walk_parent [of "[]" root p uni cfg] w m
  obtain cs b where c: "list_all valid_name cs" "p = as_posix cs @ (if b then [slash] else [])"
      "cs \<noteq> []"
      "butlast cs \<noteq> [] \<longrightarrow> as_posix (butlast cs) @ [slash] \<in> set (walk uni cfg [] root)"
    by (auto simp: scan_project_files_for_verify_def)
  have "path_parts p = cs"
    using c(2) path_parts_as_posix [OF c(3,1)] path_parts_as_posix_slash [OF c(3,1)]
    by (cases b) simp_all
  then show "butlast (path_parts p) \<noteq> [] \<longrightarrow>
       as_posix (butlast (path_parts p)) @ [slash] \<in> scan_project_files_for_verify uni cfg root"
    using c(4) by (simp add: scan_project_files_for_verify_def)
qed

lemma final_documented_paths_id:
  "\<forall>p\<in>paths. final_keep uni cfg p \<Longrightarrow> final_documented_paths uni cfg paths = paths"
  by (auto simp: final_documented_paths_def)


subsection \<open>Instances\<close>

lemma serialize_list:
  "serialize (set paths) =
     fence @ 10 # join_lines (map entry_line (sort (remdups paths))) @ 10 # fence"
  by (simp add: serialize_def sorted_list_of_set_sort_remdups)

lemma diagram_ok_list:
  "diagram_ok cfg (set paths) \<longleftrightarrow>
     list_all (diagram_entry cfg) (sort (remdups paths)) \<and> first_line_fits (sort (remdups paths))"
  by (simp add: diagram_ok_def sorted_list_of_set_sort_remdups)

lemma extract_block:
  assumes "code_block_match uni content = Some group1"
    and "splitlines (py_strip group1) = ls"
    and "documented_paths_full (parse_lines uni cfg ls) = documented"
    and "final_documented_paths uni cfg documented = result"
  shows "extract_documented_paths uni cfg (Content content) = Inr ([], Some result)"
  using assms by (simp add: extract_documented_paths_def)

lemma walk_sample:
  "walk uni default_config [] sample_root = [ustr ''README.md'', ustr ''src/'', ustr ''src/main.ts'']"
  by (simp add: sample_root_def walk.simps visit_dir_def
      file_kept_def IGNORE_PATTERNS_def match_dotstar_lit_def char_defs path_defs cfg_defs)

lemma sample_ok: "diagram_ok default_config (set [ustr ''README.md'', ustr ''src/'', ustr ''src/main.ts''])"
  unfolding diagram_ok_list
  by (simp add: diagram_entry_def first_line_fits_def plain_name_def valid_name_def
      is_decoration_def is_space_def is_linebreak_def char_defs path_defs cfg_defs)

lemma walk_library:
  "walk uni default_config [] library_root =
     [ustr ''src/'', ustr ''src/a.ts'', ustr ''src/lib/'', ustr ''src/lib/b.ts'']"
  by (simp add: library_root_def walk.simps visit_dir_def
      file_kept_def IGNORE_PATTERNS_def match_dotstar_lit_def char_defs path_defs cfg_defs)

lemma library_ok:
  "diagram_ok default_config
     (set [ustr ''src/'', ustr ''src/a.ts'', ustr ''src/lib/'', ustr ''src/lib/b.ts''])"
  unfolding diagram_ok_list
  by (simp add: diagram_entry_def first_line_fits_def plain_name_def valid_name_def
      is_decoration_def is_space_def is_linebreak_def char_defs path_defs cfg_defs)


lemma replicate_2: "replicate 2 x = [x, x]"
  by (simp add: numeral_2_eq_2)

lemma replicate_4: "replicate 4 x = [x, x, x, x]"
  by (simp add: eval_nat_numeral)

lemma round_trip_fails_git:
  "list_all wf_entry [File (ustr ''.git'')] \<and>
   scan_project_files_for_verify ascii_tables default_config
       [File (ustr ''.git'')] =
     {ustr ''.git''} \<and>
   serialize (scan_project_files_for_verify ascii_tables default_config
       [File (ustr ''.git'')]) =
     fence @ 10 # ustr ''  .git'' @ 10 # fence \<and>
   extract_documented_paths ascii_tables default_config
     (Content (serialize (scan_project_files_for_verify ascii_tables default_config
        [File (ustr ''.git'')]))) =
     Inr ([], Some {})"
proof -
  have w: "walk ascii_tables default_config [] [File (ustr ''.git'')] = [ustr ''.git'']"
    by (simp add: walk.simps visit_dir_def file_kept_def IGNORE_PATTERNS_def
        match_dotstar_lit_def char_defs path_defs cfg_defs fence_def)
  have s: "serialize (set [ustr ''.git'']) =
     fence @ 10 # ustr ''  .git'' @ 10 # fence"
    by (subst serialize_list)
      (simp add: entry_line_def char_defs path_defs fence_def replicate_2 replicate_4)
  have c: "code_block_match ascii_tables
      (fence @ 10 # ustr ''  .git'' @ 10 # fence) =
      Some (ustr ''  .git'' @ [10])"
    by (simp add: code_block_match_def skip_lang_def is_word_def fence_def char_defs)
  have l: "splitlines (py_strip (ustr ''  .git'' @ [10])) = [ustr ''.git'']"
    by (simp add: py_strip_def is_space_def ustr_def splitlines.simps is_linebreak_def)
  have d: "documented_paths_full (parse_lines ascii_tables default_config [ustr ''.git'']) =
      {}"
    by (simp add: parse_defs char_defs line_defs path_defs cfg_defs)
  have f: "final_documented_paths ascii_tables default_config {} = {}"
    by (simp add: final_documented_paths_insert final_documented_paths_empty final_keep_def
        char_defs path_defs cfg_defs)
  have v: "list_all wf_entry [File (ustr ''.git'')]"
    by (simp add: valid_name_def char_defs fence_def)
  show ?thesis
    using extract_block [OF c l d f] w s v by (simp add: scan_project_files_for_verify_def)
qed

lemma round_trip_fails_strip:
  "list_all wf_entry [Dir (ustr ''a'') [File (ustr ''f'')], Dir (ustr ''b'') []] \<and>
   scan_project_files_for_verify ascii_tables default_config
       [Dir (ustr ''a'') [File (ustr ''f'')], Dir (ustr ''b'') []] =
     {ustr ''a/'', ustr ''a/f'', ustr ''b/''} \<and>
   serialize (scan_project_files_for_verify ascii_tables default_config
       [Dir (ustr ''a'') [File (ustr ''f'')], Dir (ustr ''b'') []]) =
     fence @ 10 # ustr ''  a/'' @ 10 # ustr ''    f'' @ 10 # ustr ''  b/'' @ 10 # fence \<and>
   extract_documented_paths ascii_tables default_config
     (Content (serialize (scan_project_files_for_verify ascii_tables default_config
        [Dir (ustr ''a'') [File (ustr ''f'')], Dir (ustr ''b'') []]))) =
     Inr ([], Some {ustr ''a/b/'', ustr ''a/f'', ustr ''a/''})"
proof -
  have w: "walk ascii_tables default_config [] [Dir (ustr ''a'') [File (ustr ''f'')], Dir (ustr ''b'') []] = [ustr ''a/'', ustr ''a/f'', ustr ''b/'']"
    by (simp add: walk.simps visit_dir_def file_kept_def IGNORE_PATTERNS_def
        match_dotstar_lit_def char_defs path_defs cfg_defs fence_def)
  have s: "serialize (set [ustr ''a/'', ustr ''a/f'', ustr ''b/'']) =
     fence @ 10 # ustr ''  a/'' @ 10 # ustr ''    f'' @ 10 # ustr ''  b/'' @ 10 # fence"
    by (subst serialize_list)
      (simp add: entry_line_def char_defs path_defs fence_def replicate_2 replicate_4)
  have c: "code_block_match ascii_tables
      (fence @ 10 # ustr ''  a/'' @ 10 # ustr ''    f'' @ 10 # ustr ''  b/'' @ 10 # fence) =
      Some (ustr ''  a/'' @ 10 # ustr ''    f'' @ 10 # ustr ''  b/'' @ [10])"
    by (simp add: code_block_match_def skip_lang_def is_word_def fence_def char_defs)
  have l: "splitlines (py_strip (ustr ''  a/'' @ 10 # ustr ''    f'' @ 10 # ustr ''  b/'' @ [10])) = [ustr ''a/'', ustr ''    f'', ustr ''  b/'']"
    by (simp add: py_strip_def is_space_def ustr_def splitlines.simps is_linebreak_def)
  have d: "documented_paths_full (parse_lines ascii_tables default_config [ustr ''a/'', ustr ''    f'', ustr ''  b/'']) =
      {ustr ''a/b/'', ustr ''a/f'', ustr ''a/''}"
    by (simp add: parse_defs char_defs line_defs path_defs cfg_defs)
  have f: "final_documented_paths ascii_tables default_config {ustr ''a/b/'', ustr ''a/f'', ustr ''a/''} = {ustr ''a/b/'', ustr ''a/f'', ustr ''a/''}"
    by (simp add: final_documented_paths_insert final_documented_paths_empty final_keep_def
        char_defs path_defs cfg_defs)
  have v: "list_all wf_entry [Dir (ustr ''a'') [File (ustr ''f'')], Dir (ustr ''b'') []]"
    by (simp add: valid_name_def char_defs fence_def)
  show ?thesis
    using extract_block [OF c l d f] w s v by (simp add: scan_project_files_for_verify_def)
qed

lemma round_trip_fails_named_file:
  "list_all wf_entry [Dir (ustr ''structure.md'') []] \<and>
   scan_project_files_for_verify ascii_tables default_config
       [Dir (ustr ''structure.md'') []] =
     {ustr ''structure.md/''} \<and>
   serialize (scan_project_files_for_verify ascii_tables default_config
       [Dir (ustr ''structure.md'') []]) =
     fence @ 10 # ustr ''  structure.md/'' @ 10 # fence \<and>
   extract_documented_paths ascii_tables default_config
     (Content (serialize (scan_project_files_for_verify ascii_tables default_config
        [Dir (ustr ''structure.md'') []]))) =
     Inr ([], Some {})"
proof -
  have w: "walk ascii_tables default_config [] [Dir (ustr ''structure.md'') []] = [ustr ''structure.md/'']"
    by (simp add: walk.simps visit_dir_def file_kept_def IGNORE_PATTERNS_def
        match_dotstar_lit_def char_defs path_defs cfg_defs fence_def)
  have s: "serialize (set [ustr ''structure.md/'']) =
     fence @ 10 # ustr ''  structure.md/'' @ 10 # fence"
    by (subst serialize_list)
      (simp add: entry_line_def char_defs path_defs fence_def replicate_2 replicate_4)
  have c: "code_block_match ascii_tables
      (fence @ 10 # ustr ''  structure.md/'' @ 10 # fence) =
      Some (ustr ''  structure.md/'' @ [10])"
    by (simp add: code_block_match_def skip_lang_def is_word_def fence_def char_defs)
  have l: "splitlines (py_strip (ustr ''  structure.md/'' @ [10])) = [ustr ''structure.md/'']"
    by (simp add: py_strip_def is_space_def ustr_def splitlines.simps is_linebreak_def)
  have d: "documented_paths_full (parse_lines ascii_tables default_config [ustr ''structure.md/'']) =
      {}"
    by (simp add: parse_defs char_defs line_defs path_defs cfg_defs)
  have f: "final_documented_paths ascii_tables default_config {} = {}"
    by (simp add: final_documented_paths_insert final_documented_paths_empty final_keep_def
        char_defs path_defs cfg_defs)
  have v: "list_all wf_entry [Dir (ustr ''structure.md'') []]"
    by (simp add: valid_name_def char_defs fence_def)
  show ?thesis
    using extract_block [OF c l d f] w s v by (simp add: scan_project_files_for_verify_def)
qed

lemma round_trip_fails_hash:
  "list_all wf_entry [File (ustr ''a#b'')] \<and>
   scan_project_files_for_verify ascii_tables default_config
       [File (ustr ''a#b'')] =
     {ustr ''a#b''} \<and>
   serialize (scan_project_files_for_verify ascii_tables default_config
       [File (ustr ''a#b'')]) =
     fence @ 10 # ustr ''  a#b'' @ 10 # fence \<and>
   extract_documented_paths ascii_tables default_config
     (Content (serialize (scan_project_files_for_verify ascii_tables default_config
        [File (ustr ''a#b'')]))) =
     Inr ([], Some {ustr ''a''})"
proof -
  have w: "walk ascii_tables default_config [] [File (ustr ''a#b'')] = [ustr ''a#b'']"
    by (simp add: walk.simps visit_dir_def file_kept_def IGNORE_PATTERNS_def
        match_dotstar_lit_def char_defs path_defs cfg_defs fence_def)
  have s: "serialize (set [ustr ''a#b'']) =
     fence @ 10 # ustr ''  a#b'' @ 10 # fence"
    by (subst serialize_list)
      (simp add: entry_line_def char_defs path_defs fence_def replicate_2 replicate_4)
  have c: "code_block_match ascii_tables
      (fence @ 10 # ustr ''  a#b'' @ 10 # fence) =
      Some (ustr ''  a#b'' @ [10])"
    by (simp add: code_block_match_def skip_lang_def is_word_def fence_def char_defs)
  have l: "splitlines (py_strip (ustr ''  a#b'' @ [10])) = [ustr ''a#b'']"
    by (simp add: py_strip_def is_space_def ustr_def splitlines.simps is_linebreak_def)
  have d: "documented_paths_full (parse_lines ascii_tables default_config [ustr ''a#b'']) =
      {ustr ''a''}"
    by (simp add: parse_defs char_defs line_defs path_defs cfg_defs)
  have f: "final_documented_paths ascii_tables default_config {ustr ''a''} = {ustr ''a''}"
    by (simp add: final_documented_paths_insert final_documented_paths_empty final_keep_def
        char_defs path_defs cfg_defs)
  have v: "list_all wf_entry [File (ustr ''a#b'')]"
    by (simp add: valid_name_def char_defs fence_def)
  show ?thesis
    using extract_block [OF c l d f] w s v by (simp add: scan_project_files_for_verify_def)
qed

lemma round_trip_fails_star:
  "list_all wf_entry [File (ustr ''a*b'')] \<and>
   scan_project_files_for_verify ascii_tables default_config
       [File (ustr ''a*b'')] =
     {ustr ''a*b''} \<and>
   serialize (scan_project_files_for_verify ascii_tables default_config
       [File (ustr ''a*b'')]) =
     fence @ 10 # ustr ''  a*b'' @ 10 # fence \<and>
   extract_documented_paths ascii_tables default_config
     (Content (serialize (scan_project_files_for_verify ascii_tables default_config
        [File (ustr ''a*b'')]))) =
     Inr ([], Some {})"
proof -
  have w: "walk ascii_tables default_config [] [File (ustr ''a*b'')] = [ustr ''a*b'']"
    by (simp add: walk.simps visit_dir_def file_kept_def IGNORE_PATTERNS_def
        match_dotstar_lit_def char_defs path_defs cfg_defs fence_def)
  have s: "serialize (set [ustr ''a*b'']) =
     fence @ 10 # ustr ''  a*b'' @ 10 # fence"
    by (subst serialize_list)
      (simp add: entry_line_def char_defs path_defs fence_def replicate_2 replicate_4)
  have c: "code_block_match ascii_tables
      (fence @ 10 # ustr ''  a*b'' @ 10 # fence) =
      Some (ustr ''  a*b'' @ [10])"
    by (simp add: code_block_match_def skip_lang_def is_word_def fence_def char_defs)
  have l: "splitlines (py_strip (ustr ''  a*b'' @ [10])) = [ustr ''a*b'']"
    by (simp add: py_strip_def is_space_def ustr_def splitlines.simps is_linebreak_def)
  have d: "documented_paths_full (parse_lines ascii_tables default_config [ustr ''a*b'']) =
      {}"
    by (simp add: parse_defs char_defs line_defs path_defs cfg_defs)
  have f: "final_documented_paths ascii_tables default_config {} = {}"
    by (simp add: final_documented_paths_insert final_documented_paths_empty final_keep_def
        char_defs path_defs cfg_defs)
  have v: "list_all wf_entry [File (ustr ''a*b'')]"
    by (simp add: valid_name_def char_defs fence_def)
  show ?thesis
    using extract_block [OF c l d f] w s v by (simp add: scan_project_files_for_verify_def)
qed

lemma round_trip_fails_lead:
  "list_all wf_entry [File (ustr '' x'')] \<and>
   scan_project_files_for_verify ascii_tables default_config
       [File (ustr '' x'')] =
     {ustr '' x''} \<and>
   serialize (scan_project_files_for_verify ascii_tables default_config
       [File (ustr '' x'')]) =
     fence @ 10 # ustr ''   x'' @ 10 # fence \<and>
   extract_documented_paths ascii_tables default_config
     (Content (serialize (scan_project_files_for_verify ascii_tables default_config
        [File (ustr '' x'')]))) =
     Inr ([], Some {ustr ''x''})"
proof -
  have w: "walk ascii_tables default_config [] [File (ustr '' x'')] = [ustr '' x'']"
    by (simp add: walk.simps visit_dir_def file_kept_def IGNORE_PATTERNS_def
        match_dotstar_lit_def char_defs path_defs cfg_defs fence_def)
  have s: "serialize (set [ustr '' x'']) =
     fence @ 10 # ustr ''   x'' @ 10 # fence"
    by (subst serialize_list)
      (simp add: entry_line_def char_defs path_defs fence_def replicate_2 replicate_4)
  have c: "code_block_match ascii_tables
      (fence @ 10 # ustr ''   x'' @ 10 # fence) =
      Some (ustr ''   x'' @ [10])"
    by (simp add: code_block_match_def skip_lang_def is_word_def fence_def char_defs)
  have l: "splitlines (py_strip (ustr ''   x'' @ [10])) = [ustr ''x'']"
    by (simp add: py_strip_def is_space_def ustr_def splitlines.simps is_linebreak_def)
  have d: "documented_paths_full (parse_lines ascii_tables default_config [ustr ''x'']) =
      {ustr ''x''}"
    by (simp add: parse_defs char_defs line_defs path_defs cfg_defs)
  have f: "final_documented_paths ascii_tables default_config {ustr ''x''} = {ustr ''x''}"
    by (simp add: final_documented_paths_insert final_documented_paths_empty final_keep_def
        char_defs path_defs cfg_defs)
  have v: "list_all wf_entry [File (ustr '' x'')]"
    by (simp add: valid_name_def char_defs fence_def)
  show ?thesis
    using extract_block [OF c l d f] w s v by (simp add: scan_project_files_for_verify_def)
qed

lemma round_trip_fails_trail:
  "list_all wf_entry [File (ustr ''x '')] \<and>
   scan_project_files_for_verify ascii_tables default_config
       [File (ustr ''x '')] =
     {ustr ''x ''} \<and>
   serialize (scan_project_files_for_verify ascii_tables default_config
       [File (ustr ''x '')]) =
     fence @ 10 # ustr ''  x '' @ 10 # fence \<and>
   extract_documented_paths ascii_tables default_config
     (Content (serialize (scan_project_files_for_verify ascii_tables default_config
        [File (ustr ''x '')]))) =
     Inr ([], Some {ustr ''x''})"
proof -
  have w: "walk ascii_tables default_config [] [File (ustr ''x '')] = [ustr ''x '']"
    by (simp add: walk.simps visit_dir_def file_kept_def IGNORE_PATTERNS_def
        match_dotstar_lit_def char_defs path_defs cfg_defs fence_def)
  have s: "serialize (set [ustr ''x '']) =
     fence @ 10 # ustr ''  x '' @ 10 # fence"
    by (subst serialize_list)
      (simp add: entry_line_def char_defs path_defs fence_def replicate_2 replicate_4)
  have c: "code_block_match ascii_tables
      (fence @ 10 # ustr ''  x '' @ 10 # fence) =
      Some (ustr ''  x '' @ [10])"
    by (simp add: code_block_match_def skip_lang_def is_word_def fence_def char_defs)
  have l: "splitlines (py_strip (ustr ''  x '' @ [10])) = [ustr ''x'']"
    by (simp add: py_strip_def is_space_def ustr_def splitlines.simps is_linebreak_def)
  have d: "documented_paths_full (parse_lines ascii_tables default_config [ustr ''x'']) =
      {ustr ''x''}"
    by (simp add: parse_defs char_defs line_defs path_defs cfg_defs)
  have f: "final_documented_paths ascii_tables default_config {ustr ''x''} = {ustr ''x''}"
    by (simp add: final_documented_paths_insert final_documented_paths_empty final_keep_def
        char_defs path_defs cfg_defs)
  have v: "list_all wf_entry [File (ustr ''x '')]"
    by (simp add: valid_name_def char_defs fence_def)
  show ?thesis
    using extract_block [OF c l d f] w s v by (simp add: scan_project_files_for_verify_def)
qed

lemma round_trip_fails_newline:
  "list_all wf_entry [File (ustr ''a'' @ 11 # ustr ''b'')] \<and>
   scan_project_files_for_verify ascii_tables default_config
       [File (ustr ''a'' @ 11 # ustr ''b'')] =
     {ustr ''a'' @ 11 # ustr ''b''} \<and>
   serialize (scan_project_files_for_verify ascii_tables default_config
       [File (ustr ''a'' @ 11 # ustr ''b'')]) =
     fence @ 10 # ustr ''  a'' @ 11 # ustr ''b'' @ 10 # fence \<and>
   extract_documented_paths ascii_tables default_config
     (Content (serialize (scan_project_files_for_verify ascii_tables default_config
        [File (ustr ''a'' @ 11 # ustr ''b'')]))) =
     Inr ([], Some {ustr ''b'', ustr ''a''})"
proof -
  have w: "walk ascii_tables default_config [] [File (ustr ''a'' @ 11 # ustr ''b'')] = [ustr ''a'' @ 11 # ustr ''b'']"
    by (simp add: walk.simps visit_dir_def file_kept_def IGNORE_PATTERNS_def
        match_dotstar_lit_def char_defs path_defs cfg_defs fence_def)
  have s: "serialize (set [ustr ''a'' @ 11 # ustr ''b'']) =
     fence @ 10 # ustr ''  a'' @ 11 # ustr ''b'' @ 10 # fence"
    by (subst serialize_list)
      (simp add: entry_line_def char_defs path_defs fence_def replicate_2 replicate_4)
  have c: "code_block_match ascii_tables
      (fence @ 10 # ustr ''  a'' @ 11 # ustr ''b'' @ 10 # fence) =
      Some (ustr ''  a'' @ 11 # ustr ''b'' @ [10])"
    by (simp add: code_block_match_def skip_lang_def is_word_def fence_def char_defs)
  have l: "splitlines (py_strip (ustr ''  a'' @ 11 # ustr ''b'' @ [10])) = [ustr ''a'', ustr ''b'']"
    by (simp add: py_strip_def is_space_def ustr_def splitlines.simps is_linebreak_def)
  have d: "documented_paths_full (parse_lines ascii_tables default_config [ustr ''a'', ustr ''b'']) =
      {ustr ''b'', ustr ''a''}"
    by (simp add: parse_defs char_defs line_defs path_defs cfg_defs)
  have f: "final_documented_paths ascii_tables default_config {ustr ''b'', ustr ''a''} = {ustr ''b'', ustr ''a''}"
    by (simp add: final_documented_paths_insert final_documented_paths_empty final_keep_def
        char_defs path_defs cfg_defs)
  have v: "list_all wf_entry [File (ustr ''a'' @ 11 # ustr ''b'')]"
    by (simp add: valid_name_def char_defs fence_def)
  show ?thesis
    using extract_block [OF c l d f] w s v by (simp add: scan_project_files_for_verify_def)
qed

lemma round_trip_fails_fence:
  "list_all wf_entry [File (ustr ''a'' @ fence @ ustr ''b'')] \<and>
   scan_project_files_for_verify ascii_tables default_config
       [File (ustr ''a'' @ fence @ ustr ''b'')] =
     {ustr ''a'' @ fence @ ustr ''b''} \<and>
   serialize (scan_project_files_for_verify ascii_tables default_config
       [File (ustr ''a'' @ fence @ ustr ''b'')]) =
     fence @ 10 # ustr ''  a'' @ fence @ ustr ''b'' @ 10 # fence \<and>
   extract_documented_paths ascii_tables default_config
     (Content (serialize (scan_project_files_for_verify ascii_tables default_config
        [File (ustr ''a'' @ fence @ ustr ''b'')]))) =
     Inr ([], Some {ustr ''a''})"
proof -
  have w: "walk ascii_tables default_config [] [File (ustr ''a'' @ fence @ ustr ''b'')] = [ustr ''a'' @ fence @ ustr ''b'']"
    by (simp add: walk.simps visit_dir_def file_kept_def IGNORE_PATTERNS_def
        match_dotstar_lit_def char_defs path_defs cfg_defs fence_def)
  have s: "serialize (set [ustr ''a'' @ fence @ ustr ''b'']) =
     fence @ 10 # ustr ''  a'' @ fence @ ustr ''b'' @ 10 # fence"
    by (subst serialize_list)
      (simp add: entry_line_def char_defs path_defs fence_def replicate_2 replicate_4)
  have c: "code_block_match ascii_tables
      (fence @ 10 # ustr ''  a'' @ fence @ ustr ''b'' @ 10 # fence) =
      Some (ustr ''  a'')"
    by (simp add: code_block_match_def skip_lang_def is_word_def fence_def char_defs)
  have l: "splitlines (py_strip (ustr ''  a'')) = [ustr ''a'']"
    by (simp add: py_strip_def is_space_def ustr_def splitlines.simps is_linebreak_def)
  have d: "documented_paths_full (parse_lines ascii_tables default_config [ustr ''a'']) =
      {ustr ''a''}"
    by (simp add: parse_defs char_defs line_defs path_defs cfg_defs)
  have f: "final_documented_paths ascii_tables default_config {ustr ''a''} = {ustr ''a''}"
    by (simp add: final_documented_paths_insert final_documented_paths_empty final_keep_def
        char_defs path_defs cfg_defs)
  have v: "list_all wf_entry [File (ustr ''a'' @ fence @ ustr ''b'')]"
    by (simp add: valid_name_def char_defs fence_def)
  show ?thesis
    using extract_block [OF c l d f] w s v by (simp add: scan_project_files_for_verify_def)
qed


end
